theory Spec2Isabelle
  imports Main "HOL-Library.Word" "HOL-Library.Signed_Division"
begin

unbundle bit_operations_syntax

section \<open>Data model (bitmap.h)\<close>

text \<open>
  The three packed header structs and the \<open>Bitmap\<close> class, field by field.
  \<open>uintN_t\<close> and \<open>intN_t\<close> fields are \<open>N word\<close>; a signed field is read with
  \<open>sint\<close>, an unsigned one with \<open>uint\<close> or \<open>unat\<close>.  The field \<open>size\<close> of
  \<open>BMPInfoHeader\<close> is called \<open>size_field\<close> here, because \<open>size\<close> is a constant of HOL.
\<close>

record BMPFileHeader =
  file_type :: "16 word"
  file_size :: "32 word"
  reserved1 :: "16 word"
  reserved2 :: "16 word"
  offset_data :: "32 word"

record BMPInfoHeader =
  size_field :: "32 word"
  width :: "32 word"
  height :: "32 word"
  planes :: "16 word"
  bit_count :: "16 word"
  compression :: "32 word"
  size_image :: "32 word"
  x_pixels_per_meter :: "32 word"
  y_pixels_per_meter :: "32 word"
  colors_used :: "32 word"
  colors_important :: "32 word"

record BMPColorHeader =
  red_mask :: "32 word"
  green_mask :: "32 word"
  blue_mask :: "32 word"
  alpha_mask :: "32 word"
  color_space_type :: "32 word"
  unused :: "32 word list"

record Bitmap =
  row_stride :: "32 word"
  imageType :: "16 word"
  file_header :: BMPFileHeader
  bmp_info_header :: BMPInfoHeader
  bmp_color_header :: BMPColorHeader
  data :: "8 word list"

text \<open>The member initialisers of the structs: what \<open>Bitmap()\<close> constructs.\<close>

definition BMPFileHeader_init :: BMPFileHeader where
  "BMPFileHeader_init =
     \<lparr>file_type = 0, file_size = 0, reserved1 = 0, reserved2 = 0, offset_data = 0\<rparr>"

definition BMPInfoHeader_init :: BMPInfoHeader where
  "BMPInfoHeader_init =
     \<lparr>size_field = 0, width = 0, height = 0, planes = 0, bit_count = 0, compression = 0,
      size_image = 0, x_pixels_per_meter = 0, y_pixels_per_meter = 0, colors_used = 0,
      colors_important = 0\<rparr>"

definition BMPColorHeader_init :: BMPColorHeader where
  "BMPColorHeader_init =
     \<lparr>red_mask = 0x00ff0000, green_mask = 0x0000ff00, blue_mask = 0x000000ff,
      alpha_mask = 0xff000000, color_space_type = 0x73524742, unused = replicate 16 0\<rparr>"

definition Bitmap_init :: Bitmap where
  "Bitmap_init =
     \<lparr>row_stride = 0, imageType = 0, file_header = BMPFileHeader_init,
      bmp_info_header = BMPInfoHeader_init, bmp_color_header = BMPColorHeader_init,
      data = []\<rparr>"

text \<open>The header values as C++ reads them in expressions (after integer promotion).\<close>

definition img_width :: "Bitmap \<Rightarrow> int" where
  "img_width b = sint (width (bmp_info_header b))"

definition img_height :: "Bitmap \<Rightarrow> int" where
  "img_height b = sint (height (bmp_info_header b))"

definition bpp :: "Bitmap \<Rightarrow> int" where
  "bpp b = uint (imageType b)"

section \<open>Outcomes of a call\<close>

text \<open>
  A call either returns, or runs into undefined behaviour (a \<open>fault\<close>: an access outside
  the vector or outside a local table, a signed overflow, a division by zero, the end of a
  function that returns a value reached without a \<open>return\<close>), or never returns.  \<open>Some (Ok x)\<close> is a return, \<open>Some (Fault e)\<close> undefined behaviour, and \<open>None\<close>
  a loop that runs forever.
\<close>

datatype fault =
    Buffer_out_of_range int
  | Table_out_of_range int
  | Signed_overflow
  | Division_by_zero
  | Missing_return

datatype 'a result = Ok 'a | Fault fault

type_synonym 'a comp = "'a result option"

definition bindR :: "'a comp \<Rightarrow> ('a \<Rightarrow> 'b comp) \<Rightarrow> 'b comp" where
  "bindR m f = (case m of None \<Rightarrow> None | Some (Fault e) \<Rightarrow> Some (Fault e) | Some (Ok a) \<Rightarrow> f a)"

text \<open>\<open>for (i = i0; cond(i); i = nxt(i)) body\<close>, with the loop variable of any type.\<close>

partial_function (option) while_loop ::
  "('i \<Rightarrow> bool) \<Rightarrow> ('i \<Rightarrow> 'i) \<Rightarrow> ('i \<Rightarrow> 's \<Rightarrow> 's comp) \<Rightarrow> 'i \<Rightarrow> 's \<Rightarrow> 's comp"
where
  "while_loop cond nxt body i s =
     (if cond i
      then (case body i s of
              None \<Rightarrow> None
            | Some (Fault e) \<Rightarrow> Some (Fault e)
            | Some (Ok s') \<Rightarrow> while_loop cond nxt body (nxt i) s')
      else Some (Ok s))"

declare while_loop.simps [code]

text \<open>\<open>while (cond) body\<close> on a state that holds the loop variables.\<close>

partial_function (option) while_state :: "('s \<Rightarrow> bool) \<Rightarrow> ('s \<Rightarrow> 's comp) \<Rightarrow> 's \<Rightarrow> 's comp"
where
  "while_state cond body s =
     (if cond s
      then (case body s of
              None \<Rightarrow> None
            | Some (Fault e) \<Rightarrow> Some (Fault e)
            | Some (Ok s') \<Rightarrow> while_state cond body s')
      else Some (Ok s))"

declare while_state.simps [code]

text \<open>The result of an \<open>int\<close> operation: undefined behaviour outside 32 bits.\<close>

definition ck_int :: "int \<Rightarrow> int comp" where
  "ck_int i = (if - (2 ^ 31) \<le> i \<and> i < 2 ^ 31 then Some (Ok i) else Some (Fault Signed_overflow))"

text \<open>
  Reading and writing one byte of a vector through a pointer \<open>&v[0] + a\<close>.
\<close>

definition load :: "8 word list \<Rightarrow> int \<Rightarrow> 8 word comp" where
  "load d a =
     (if 0 \<le> a \<and> a < int (length d) then Some (Ok (d ! nat a))
      else Some (Fault (Buffer_out_of_range a)))"

definition store :: "8 word list \<Rightarrow> int \<Rightarrow> 8 word \<Rightarrow> 8 word list comp" where
  "store d a v =
     (if 0 \<le> a \<and> a < int (length d) then Some (Ok (d[nat a := v]))
      else Some (Fault (Buffer_out_of_range a)))"

text \<open>Reading a local table (\<open>offset[i]\<close>, \<open>filter[i][j]\<close>).\<close>

definition table_get :: "'a list \<Rightarrow> int \<Rightarrow> 'a comp" where
  "table_get t i =
     (if 0 \<le> i \<and> i < int (length t) then Some (Ok (t ! nat i))
      else Some (Fault (Table_out_of_range i)))"

text \<open>
  \<open>&b.data[0] + b.row_stride * y\<close>: the product of a \<open>uint32_t\<close> and an \<open>int\<close> is computed
  in \<open>uint32_t\<close>, so it wraps.
\<close>

definition row_offset :: "32 word \<Rightarrow> int \<Rightarrow> int" where
  "row_offset rs y = uint (rs * word_of_int y)"

section \<open>cellShade\<close>

text \<open>
  \<open>nearesetNumber\<close>: the loop over the three table entries, \<open>min\<close> starting at 255.
\<close>

definition nearest_step :: "8 word \<Rightarrow> nat \<Rightarrow> 8 word \<times> nat \<Rightarrow> 8 word \<times> nat" where
  "nearest_step inValue i st =
     (let val = [0, 128, 255 :: 8 word];
          curMin = (if inValue > val ! i then inValue - val ! i else val ! i - inValue)
      in if curMin < fst st then (curMin, i) else st)"

definition nearesetNumber :: "8 word \<Rightarrow> 8 word" where
  "nearesetNumber inValue =
     [0, 128, 255 :: 8 word] ! snd (fold (nearest_step inValue) [0, 1, 2] (255, 0))"

text \<open>
  \<open>pixel[ch] = nearesetNumber(pixel[ch])\<close> for the channels of one pixel, the pixels of
  one row, and the rows.  The channel counter is a \<open>uint8_t\<close> compared with the
  \<open>uint16_t\<close> \<open>imageType\<close>.  The test \<open>if (!row)\<close> is on a pointer into the vector, which
  is never null, so the \<open>throw\<close> under it is not a branch of the model.
\<close>

definition cellShade_channel :: "int \<Rightarrow> 8 word \<Rightarrow> 8 word list \<Rightarrow> 8 word list comp" where
  "cellShade_channel pixel ch d =
     bindR (load d (pixel + uint ch)) (\<lambda>v. store d (pixel + uint ch) (nearesetNumber v))"

definition cellShade_pixel :: "Bitmap \<Rightarrow> int \<Rightarrow> int \<Rightarrow> 8 word list \<Rightarrow> 8 word list comp" where
  "cellShade_pixel b row x d =
     bindR (ck_int (x * bpp b)) (\<lambda>off.
       while_loop (\<lambda>ch :: 8 word. uint ch < bpp b) (\<lambda>ch. ch + 1)
         (cellShade_channel (row + off)) 0 d)"

definition cellShade_row :: "Bitmap \<Rightarrow> int \<Rightarrow> 8 word list \<Rightarrow> 8 word list comp" where
  "cellShade_row b y d =
     while_loop (\<lambda>x. x < img_width b) (\<lambda>x. x + 1)
       (cellShade_pixel b (row_offset (row_stride b) y)) 0 d"

definition cellShade :: "Bitmap \<Rightarrow> Bitmap comp" where
  "cellShade b =
     bindR (while_loop (\<lambda>y. y < img_height b) (\<lambda>y. y + 1) (cellShade_row b) 0 (data b))
       (\<lambda>d. Some (Ok (b\<lparr>data := d\<rparr>)))"

section \<open>grayscale\<close>

text \<open>
  \<open>pixel[0] = pixel[1] = pixel[2] = gray\<close>: the assignments run from right to left, each
  one passing on the byte it has just stored.
\<close>

definition gray_store :: "8 word list \<Rightarrow> int \<Rightarrow> 16 word \<Rightarrow> 8 word list comp" where
  "gray_store d pixel gray =
     bindR (store d (pixel + 2) (ucast gray)) (\<lambda>d.
     bindR (store d (pixel + 1) (d ! nat (pixel + 2))) (\<lambda>d.
       store d (pixel + 0) (d ! nat (pixel + 1))))"

text \<open>
  The body of the loop over \<open>x\<close> at the pixel pointer: \<open>gray\<close> is a \<open>uint16_t\<close>, the
  sum and the division by \<open>imageType\<close> are computed in \<open>int\<close>.  With four channels the
  alpha byte is overwritten too.  The last statement, \<open>pixel = pixel + b.imageType\<close>,
  changes a local that is not read again.
\<close>

definition grayscale_at :: "Bitmap \<Rightarrow> int \<Rightarrow> 8 word list \<Rightarrow> 8 word list comp" where
  "grayscale_at b pixel d =
     bindR (load d (pixel + 0)) (\<lambda>p0.
     bindR (load d (pixel + 1)) (\<lambda>p1.
     bindR (load d (pixel + 2)) (\<lambda>p2.
       if imageType b = 3
       then gray_store d pixel (word_of_int ((uint p0 + uint p1 + uint p2) div bpp b))
       else
         bindR (load d (pixel + 3)) (\<lambda>p3.
           if bpp b = 0 then Some (Fault Division_by_zero)
           else
             let gray = (word_of_int ((uint p0 + uint p1 + uint p2 + uint p3) div bpp b)
                          :: 16 word)
             in bindR (store d (pixel + 3) (ucast gray)) (\<lambda>d. gray_store d pixel gray)))))"

definition grayscale_pixel :: "Bitmap \<Rightarrow> int \<Rightarrow> int \<Rightarrow> 8 word list \<Rightarrow> 8 word list comp" where
  "grayscale_pixel b row x d =
     bindR (ck_int (x * bpp b)) (\<lambda>off. grayscale_at b (row + off) d)"

definition grayscale_row :: "Bitmap \<Rightarrow> int \<Rightarrow> 8 word list \<Rightarrow> 8 word list comp" where
  "grayscale_row b y d =
     while_loop (\<lambda>x. x < img_width b) (\<lambda>x. x + 1)
       (grayscale_pixel b (row_offset (row_stride b) y)) 0 d"

definition grayscale :: "Bitmap \<Rightarrow> Bitmap comp" where
  "grayscale b =
     bindR (while_loop (\<lambda>y. y < img_height b) (\<lambda>y. y + 1) (grayscale_row b) 0 (data b))
       (\<lambda>d. Some (Ok (b\<lparr>data := d\<rparr>)))"

section \<open>blur\<close>

text \<open>The kernel \<open>filter[5][5]\<close> and the table \<open>offset[5]\<close>.\<close>

definition blur_filter :: "int list list" where
  "blur_filter = [[1, 4, 6, 4, 1], [4, 16, 24, 16, 4], [6, 24, 36, 24, 6],
                  [4, 16, 24, 16, 4], [1, 4, 6, 4, 1]]"

definition blur_offset :: "int list" where
  "blur_offset = [-2, -1, 0, 1, 2]"

text \<open>
  \<open>filterValue[ch] += otherPixel[ch] * filter[yOff][xOff]\<close>: the sum is computed in \<open>int\<close>
  and stored in a \<open>uint16_t\<close>.
\<close>

definition blur_add :: "16 word list \<Rightarrow> nat \<Rightarrow> 8 word \<Rightarrow> int \<Rightarrow> 16 word list" where
  "blur_add filterValue ch v w = filterValue[ch := word_of_int (uint (filterValue ! ch) + uint v * w)]"

text \<open>
  One step of the two inner loops.  \<open>yOffset\<close> and \<open>xOffset\<close> are \<open>uint32_t\<close>, so the
  row and pixel offsets are products in \<open>uint32_t\<close>.  The neighbours are read from the
  buffer that is being written: \<open>blur\<close> takes no copy.
\<close>

definition blur_sample ::
  "Bitmap \<Rightarrow> 8 word list \<Rightarrow> int \<Rightarrow> int \<Rightarrow> int \<Rightarrow> int \<Rightarrow> 16 word list \<Rightarrow> 16 word list comp" where
  "blur_sample b d y x xOff yOff filterValue =
     bindR (table_get blur_offset yOff) (\<lambda>oy.
     bindR (table_get blur_offset xOff) (\<lambda>ox.
       let yOffset = (word_of_int (y + oy) :: 32 word);
           xOffset = (word_of_int (x + ox) :: 32 word);
           row = uint (row_stride b * yOffset);
           otherPixel = row + uint (xOffset * ucast (imageType b))
       in
       bindR (table_get blur_filter yOff) (\<lambda>frow.
       bindR (table_get frow xOff) (\<lambda>w.
       bindR (load d (otherPixel + 0)) (\<lambda>o0.
       bindR (load d (otherPixel + 1)) (\<lambda>o1.
       bindR (load d (otherPixel + 2)) (\<lambda>o2.
         let fv = blur_add (blur_add (blur_add filterValue 0 o0 w) 1 o1 w) 2 o2 w in
         if imageType b = 4
         then bindR (load d (otherPixel + 3)) (\<lambda>o3. Some (Ok (blur_add fv 3 o3 w)))
         else Some (Ok fv))))))))"

definition blur_accumulate :: "Bitmap \<Rightarrow> 8 word list \<Rightarrow> int \<Rightarrow> int \<Rightarrow> 16 word list comp" where
  "blur_accumulate b d y x =
     while_loop (\<lambda>xOff. xOff < 5) (\<lambda>xOff. xOff + 1)
       (\<lambda>xOff. while_loop (\<lambda>yOff. yOff < 5) (\<lambda>yOff. yOff + 1)
                  (\<lambda>yOff. blur_sample b d y x xOff yOff) 0)
       0 [0, 0, 0, 0]"

text \<open>
  \<open>filterValue[ch] = filterValue[ch] / 255.0; pixel[ch] = filterValue[ch]\<close>.  The quotient
  is a \<open>double\<close> converted back to \<open>uint16_t\<close>, which truncates it.  For a dividend below
  \<open>2 ^ 16\<close> the truncated quotient is the integer quotient: the exact quotient is an
  integer or at least \<open>1 / 255\<close> away from one, far more than the rounding error of the
  division.  The store into the pixel keeps the low eight bits.
\<close>

definition blur_write ::
  "int \<Rightarrow> 8 word \<Rightarrow> 16 word list \<times> 8 word list \<Rightarrow> (16 word list \<times> 8 word list) comp" where
  "blur_write pixel ch st =
     bindR (table_get (fst st) (uint ch)) (\<lambda>f.
       let filterValue = (fst st)[nat (uint ch) := (word_of_int (uint f div 255) :: 16 word)] in
       bindR (store (snd st) (pixel + uint ch) (ucast (filterValue ! nat (uint ch)))) (\<lambda>d.
         Some (Ok (filterValue, d))))"

definition blur_pixel :: "Bitmap \<Rightarrow> int \<Rightarrow> int \<Rightarrow> 8 word list \<Rightarrow> 8 word list comp" where
  "blur_pixel b y x d =
     bindR (ck_int (x * bpp b)) (\<lambda>off.
       let pixel = row_offset (row_stride b) y + off in
       bindR (blur_accumulate b d y x) (\<lambda>filterValue.
       bindR (while_loop (\<lambda>ch :: 8 word. uint ch < bpp b) (\<lambda>ch. ch + 1)
                (blur_write pixel) 0 (filterValue, d)) (\<lambda>st.
         Some (Ok (snd st)))))"

definition blur :: "Bitmap \<Rightarrow> Bitmap comp" where
  "blur b =
     bindR (ck_int (img_height b - 3)) (\<lambda>ylim.
     bindR (while_loop (\<lambda>y. y < ylim) (\<lambda>y. y + 1)
              (\<lambda>y d.
                 bindR (ck_int (img_width b - 3)) (\<lambda>xlim.
                   while_loop (\<lambda>x. x < xlim) (\<lambda>x. x + 1) (blur_pixel b y) 2 d))
              2 (data b))
       (\<lambda>d. Some (Ok (b\<lparr>data := d\<rparr>))))"

section \<open>pixelate\<close>

text \<open>The table \<open>offset[16]\<close> and the sums \<open>value[4]\<close>, which are \<open>uint32_t\<close>.\<close>

definition pixelate_offset :: "int list" where
  "pixelate_offset = [-8, -7, -6, -5, -4, -3, -2, -1, 0, 1, 2, 3, 4, 5, 6, 7]"

definition value_add :: "32 word list \<Rightarrow> nat \<Rightarrow> 8 word \<Rightarrow> 32 word list" where
  "value_add val ch v = val[ch := val ! ch + ucast v]"

text \<open>
  The first pair of loops sums a 16 by 16 neighbourhood of the copy \<open>originalImage\<close>; both
  run over \<open>0 \<le> oY, oX < 16\<close>.
\<close>

definition pixelate_sample ::
  "Bitmap \<Rightarrow> 8 word list \<Rightarrow> int \<Rightarrow> int \<Rightarrow> int \<Rightarrow> 32 word list \<Rightarrow> 32 word list comp" where
  "pixelate_sample b orig oRow x oX val =
     bindR (table_get pixelate_offset oX) (\<lambda>ox.
     bindR (ck_int ((x + ox) * bpp b)) (\<lambda>off.
       let otherPixel = oRow + off in
       bindR (load orig (otherPixel + 0)) (\<lambda>o0.
       bindR (load orig (otherPixel + 1)) (\<lambda>o1.
       bindR (load orig (otherPixel + 2)) (\<lambda>o2.
         let val = value_add (value_add (value_add val 0 o0) 1 o1) 2 o2 in
         if imageType b = 4
         then bindR (load orig (otherPixel + 3)) (\<lambda>o3. Some (Ok (value_add val 3 o3)))
         else Some (Ok val))))))"

definition pixelate_sum :: "Bitmap \<Rightarrow> 8 word list \<Rightarrow> int \<Rightarrow> int \<Rightarrow> 32 word list comp" where
  "pixelate_sum b orig y x =
     while_loop (\<lambda>oY. oY < 16) (\<lambda>oY. oY + 1)
       (\<lambda>oY val.
          bindR (table_get pixelate_offset oY) (\<lambda>oy.
            while_loop (\<lambda>oX. oX < 16) (\<lambda>oX. oX + 1)
              (pixelate_sample b orig (row_offset (row_stride b) (y + oy)) x) 0 val))
       0 [0, 0, 0, 0]"

text \<open>
  The second pair of loops writes the averages into \<open>b\<close>; here the inner loop runs over
  \<open>0 \<le> oX < 17\<close> and reads \<open>offset[oX]\<close>.
\<close>

definition pixelate_store ::
  "Bitmap \<Rightarrow> 32 word list \<Rightarrow> int \<Rightarrow> int \<Rightarrow> int \<Rightarrow> 8 word list \<Rightarrow> 8 word list comp" where
  "pixelate_store b val oRow x oX d =
     bindR (table_get pixelate_offset oX) (\<lambda>ox.
     bindR (ck_int ((x + ox) * bpp b)) (\<lambda>off.
       let otherPixel = oRow + off in
       bindR (store d (otherPixel + 0) (ucast (val ! 0))) (\<lambda>d.
       bindR (store d (otherPixel + 1) (ucast (val ! 1))) (\<lambda>d.
       bindR (store d (otherPixel + 2) (ucast (val ! 2))) (\<lambda>d.
         if imageType b = 4 then store d (otherPixel + 3) (ucast (val ! 3))
         else Some (Ok d))))))"

definition pixelate_fill :: "Bitmap \<Rightarrow> 32 word list \<Rightarrow> int \<Rightarrow> int \<Rightarrow> 8 word list \<Rightarrow> 8 word list comp" where
  "pixelate_fill b val y x d =
     while_loop (\<lambda>oY. oY < 16) (\<lambda>oY. oY + 1)
       (\<lambda>oY d.
          bindR (table_get pixelate_offset oY) (\<lambda>oy.
            while_loop (\<lambda>oX. oX < 17) (\<lambda>oX. oX + 1)
              (pixelate_store b val (row_offset (row_stride b) (y + oy)) x) 0 d))
       0 d"

definition pixelate_block :: "Bitmap \<Rightarrow> int \<Rightarrow> int \<Rightarrow> 8 word list \<Rightarrow> 8 word list comp" where
  "pixelate_block b y x d =
     bindR (pixelate_sum b (data b) y x) (\<lambda>val.
       pixelate_fill b [val ! 0 div 256, val ! 1 div 256, val ! 2 div 256,
                        if imageType b = 4 then val ! 3 div 256 else val ! 3] y x d)"

definition pixelate :: "Bitmap \<Rightarrow> Bitmap comp" where
  "pixelate b =
     bindR (ck_int (img_height b - 8)) (\<lambda>ylim.
     bindR (while_loop (\<lambda>y. y < ylim) (\<lambda>y. y + 8)
              (\<lambda>y d.
                 bindR (ck_int (img_width b - 8)) (\<lambda>xlim.
                   while_loop (\<lambda>x. x < xlim) (\<lambda>x. x + 8) (pixelate_block b y) 8 d))
              8 (data b))
       (\<lambda>d. Some (Ok (b\<lparr>data := d\<rparr>))))"

section \<open>flipv and fliph\<close>

text \<open>
  Both flips copy from \<open>original\<close>, a copy of the bitmap taken on entry, into \<open>b\<close>, three or
  four bytes at a time.
\<close>

definition copy_pixel ::
  "Bitmap \<Rightarrow> 8 word list \<Rightarrow> int \<Rightarrow> int \<Rightarrow> 8 word list \<Rightarrow> 8 word list comp" where
  "copy_pixel b original src dst d =
     bindR (load original (src + 0)) (\<lambda>v0. bindR (store d (dst + 0) v0) (\<lambda>d.
     bindR (load original (src + 1)) (\<lambda>v1. bindR (store d (dst + 1) v1) (\<lambda>d.
     bindR (load original (src + 2)) (\<lambda>v2. bindR (store d (dst + 2) v2) (\<lambda>d.
       if imageType b = 4
       then bindR (load original (src + 3)) (\<lambda>v3. store d (dst + 3) v3)
       else Some (Ok d)))))))"

text \<open>
  \<open>flipv\<close>: row \<open>y\<close> of the copy goes to row \<open>height - 1 - y\<close>.  Both loop counters are
  \<open>uint16_t\<close>: the comparison with the \<open>int\<close> bound is done in \<open>int\<close>, and
  \<open>x += b.imageType\<close> and \<open>++y\<close> wrap at \<open>2 ^ 16\<close>.
\<close>

definition flipv_row :: "Bitmap \<Rightarrow> 16 word \<Rightarrow> 8 word list \<Rightarrow> 8 word list comp" where
  "flipv_row b y d =
     (let originalRow = row_offset (row_stride b) (uint y);
          newRow = row_offset (row_stride b) ((img_height b - 1) - uint y)
      in bindR (ck_int (img_width b * bpp b)) (\<lambda>lim.
           while_loop (\<lambda>x :: 16 word. uint x < lim) (\<lambda>x. x + imageType b)
             (\<lambda>x. copy_pixel b (data b) (originalRow + uint x) (newRow + uint x)) 0 d))"

definition flipv :: "Bitmap \<Rightarrow> Bitmap comp" where
  "flipv b =
     bindR (while_loop (\<lambda>y :: 16 word. uint y < img_height b) (\<lambda>y. y + 1) (flipv_row b) 0
              (data b))
       (\<lambda>d. Some (Ok (b\<lparr>data := d\<rparr>)))"

text \<open>
  \<open>fliph\<close>: the pixel at byte \<open>x\<close> of a row is taken from byte
  \<open>offset = (width - 1) * imageType - x\<close> of the same row of the copy; \<open>offset\<close> is a
  \<open>uint16_t\<close> as well.
\<close>

definition fliph_pixel :: "Bitmap \<Rightarrow> int \<Rightarrow> 16 word \<Rightarrow> 8 word list \<Rightarrow> 8 word list comp" where
  "fliph_pixel b row x d =
     bindR (ck_int ((img_width b - 1) * bpp b)) (\<lambda>last.
       let offset = (word_of_int (last - uint x) :: 16 word)
       in copy_pixel b (data b) (row + uint offset) (row + uint x) d)"

definition fliph_row :: "Bitmap \<Rightarrow> 16 word \<Rightarrow> 8 word list \<Rightarrow> 8 word list comp" where
  "fliph_row b y d =
     (let row = row_offset (row_stride b) (uint y)
      in bindR (ck_int (img_width b * bpp b)) (\<lambda>lim.
           while_loop (\<lambda>x :: 16 word. uint x < lim) (\<lambda>x. x + imageType b)
             (fliph_pixel b row) 0 d))"

definition fliph :: "Bitmap \<Rightarrow> Bitmap comp" where
  "fliph b =
     bindR (while_loop (\<lambda>y :: 16 word. uint y < img_height b) (\<lambda>y. y + 1) (fliph_row b) 0
              (data b))
       (\<lambda>d. Some (Ok (b\<lparr>data := d\<rparr>)))"

section \<open>scaleUp and scaleDown\<close>

text \<open>
  \<open>pixel[(c * b.imageType) + k]\<close> with a \<open>uint32_t\<close> counter \<open>c\<close>: the index is computed in
  \<open>uint32_t\<close>.
\<close>

definition idx32 :: "32 word \<Rightarrow> 16 word \<Rightarrow> int \<Rightarrow> int" where
  "idx32 c n k = uint (c * ucast n + word_of_int k)"

text \<open>
  Copying the channels of one pixel of the copy \<open>original\<close> into \<open>b\<close>, and clearing the
  channels of one pixel of \<open>b\<close>; \<open>src k\<close> and \<open>dst k\<close> are the offsets of channel \<open>k\<close>.
\<close>

definition copy_channels ::
  "Bitmap \<Rightarrow> 8 word list \<Rightarrow> (int \<Rightarrow> int) \<Rightarrow> (int \<Rightarrow> int) \<Rightarrow> 8 word list \<Rightarrow> 8 word list comp" where
  "copy_channels b original src dst d =
     bindR (load original (src 0)) (\<lambda>v0. bindR (store d (dst 0) v0) (\<lambda>d.
     bindR (load original (src 1)) (\<lambda>v1. bindR (store d (dst 1) v1) (\<lambda>d.
     bindR (load original (src 2)) (\<lambda>v2. bindR (store d (dst 2) v2) (\<lambda>d.
       if imageType b = 4
       then bindR (load original (src 3)) (\<lambda>v3. store d (dst 3) v3)
       else Some (Ok d)))))))"

definition zero_channels :: "Bitmap \<Rightarrow> (int \<Rightarrow> int) \<Rightarrow> 8 word list \<Rightarrow> 8 word list comp" where
  "zero_channels b dst d =
     bindR (store d (dst 0) 0) (\<lambda>d.
     bindR (store d (dst 1) 0) (\<lambda>d.
     bindR (store d (dst 2) 0) (\<lambda>d.
       if imageType b = 4 then store d (dst 3) 0 else Some (Ok d))))"

text \<open>
  The header updates the two functions share, from the new width \<open>w\<close> and height \<open>h\<close>:
  \<open>width += width % 4\<close> and \<open>row_stride = width * bit_count / 8\<close>, where \<open>%\<close> and \<open>/\<close>
  truncate towards zero.
\<close>

definition scale_header :: "Bitmap \<Rightarrow> int \<Rightarrow> int \<Rightarrow> Bitmap comp" where
  "scale_header b w h =
     bindR (ck_int (w + w smod 4)) (\<lambda>w'.
     bindR (ck_int (w' * uint (bit_count (bmp_info_header b)))) (\<lambda>bits.
       Some (Ok (b\<lparr>bmp_info_header := (bmp_info_header b)\<lparr>width := word_of_int w',
                       height := word_of_int h\<rparr>,
                    row_stride := word_of_int (bits sdiv 8)\<rparr>))))"

text \<open>
  \<open>scaleUp\<close>: width and height are doubled first.  The loop over \<open>x\<close> runs to the new width
  and copies pixel \<open>x\<close> of the source row twice, then \<open>while (c < width)\<close> clears what is
  left; \<open>c\<close> and \<open>r\<close> are \<open>uint32_t\<close>, the other counters \<open>uint16_t\<close>, and \<open>c < width\<close> is an
  unsigned comparison.  The vector is not resized.
\<close>

definition scaleUp_copy ::
  "Bitmap \<Rightarrow> 8 word list \<Rightarrow> int \<Rightarrow> int \<Rightarrow> 16 word \<Rightarrow> 32 word \<times> 8 word list
     \<Rightarrow> (32 word \<times> 8 word list) comp" where
  "scaleUp_copy b original originalRow row x st =
     bindR (ck_int (uint x * bpp b)) (\<lambda>sx.
     bindR (copy_channels b original (\<lambda>k. originalRow + (sx + k))
              (\<lambda>k. row + idx32 (fst st) (imageType b) k) (snd st)) (\<lambda>d.
       Some (Ok (fst st + 1, d))))"

definition scaleUp_row ::
  "Bitmap \<Rightarrow> 8 word list \<Rightarrow> int \<Rightarrow> 32 word \<times> 8 word list \<Rightarrow> (32 word \<times> 8 word list) comp" where
  "scaleUp_row b original originalRow st =
     (let row = uint (row_stride b * fst st) in
      bindR (while_loop (\<lambda>x :: 16 word. uint x < img_width b) (\<lambda>x. x + 1)
               (\<lambda>x. while_loop (\<lambda>cCount :: 16 word. uint cCount < 2) (\<lambda>cCount. cCount + 1)
                        (\<lambda>cCount. scaleUp_copy b original originalRow row x) 0)
               0 (0, snd st)) (\<lambda>cd.
      bindR (while_loop (\<lambda>c :: 32 word. c < width (bmp_info_header b)) (\<lambda>c. c + 1)
               (\<lambda>c. zero_channels b (\<lambda>k. row + idx32 c (imageType b) k)) (fst cd) (snd cd))
        (\<lambda>d. Some (Ok (fst st + 1, d)))))"

definition scaleUp :: "Bitmap \<Rightarrow> Bitmap comp" where
  "scaleUp original =
     bindR (ck_int (img_width original * 2)) (\<lambda>w.
     bindR (ck_int (img_height original * 2)) (\<lambda>h.
     bindR (scale_header original w h) (\<lambda>b.
     bindR (while_loop (\<lambda>y :: 16 word. uint y < img_height original) (\<lambda>y. y + 1)
              (\<lambda>y. while_loop (\<lambda>rCount :: 16 word. uint rCount < 2) (\<lambda>rCount. rCount + 1)
                       (\<lambda>rCount. scaleUp_row b (data original)
                                    (row_offset (row_stride original) (uint y))) 0)
              0 (0, data original)) (\<lambda>rd.
       Some (Ok (b\<lparr>data := snd rd\<rparr>))))))"

text \<open>
  \<open>scaleDown\<close>: width and height are halved first.  Rows and columns with an even index
  are skipped (\<open>continue\<close>); the loop over \<open>x\<close> also stops at \<open>c >= b.row_stride\<close>
  (\<open>break\<close>), which is tested before anything else in its body, so it is part of the loop
  condition here.  All counters are \<open>uint16_t\<close>.
\<close>

definition scaleDown_copy ::
  "Bitmap \<Rightarrow> Bitmap \<Rightarrow> int \<Rightarrow> int \<Rightarrow> 16 word \<times> 16 word \<times> 8 word list
     \<Rightarrow> (16 word \<times> 16 word \<times> 8 word list) comp" where
  "scaleDown_copy b original originalRow row st =
     (case st of (x, c, d) \<Rightarrow>
        if uint x smod 2 = 0 then Some (Ok (x + 1, c, d))
        else
          bindR (ck_int (uint c * bpp b)) (\<lambda>dc.
          bindR (ck_int (uint x * bpp b)) (\<lambda>sx.
          bindR (copy_channels b (data original) (\<lambda>k. originalRow + (sx + k))
                   (\<lambda>k. row + (dc + k)) d) (\<lambda>d.
            Some (Ok (x + 1, c + 1, d))))))"

definition scaleDown_fill ::
  "Bitmap \<Rightarrow> int \<Rightarrow> 16 word \<times> 8 word list \<Rightarrow> (16 word \<times> 8 word list) comp" where
  "scaleDown_fill b row st =
     bindR (ck_int (uint (fst st) * bpp b)) (\<lambda>dc.
     bindR (zero_channels b (\<lambda>k. row + (dc + k)) (snd st)) (\<lambda>d.
       Some (Ok (fst st + 1, d))))"

definition scaleDown_row ::
  "Bitmap \<Rightarrow> Bitmap \<Rightarrow> 16 word \<Rightarrow> 16 word \<times> 16 word \<times> 8 word list
     \<Rightarrow> (16 word \<times> 16 word \<times> 8 word list) comp" where
  "scaleDown_row b original y st =
     (case st of (r, c, d) \<Rightarrow>
        if uint y smod 2 = 0 then Some (Ok (r, c, d))
        else
          let row = row_offset (row_stride b) (uint r);
              originalRow = row_offset (row_stride original) (uint y)
          in
          bindR (while_state
                   (\<lambda>(x, c, d). uint x < img_width original \<and> \<not> ucast c \<ge> row_stride b)
                   (scaleDown_copy b original originalRow row) (0, 0, d)) (\<lambda>(x, c, d).
          bindR (while_state (\<lambda>(c, d). uint c < img_width b) (scaleDown_fill b row) (c, d))
            (\<lambda>(c, d). Some (Ok (r + 1, c, d)))))"

definition scaleDown :: "Bitmap \<Rightarrow> Bitmap comp" where
  "scaleDown original =
     bindR (scale_header original (img_width original sdiv 2) (img_height original sdiv 2))
       (\<lambda>b.
     bindR (while_loop (\<lambda>y :: 16 word. uint y < img_height original) (\<lambda>y. y + 1)
              (scaleDown_row b original) 0 (0, 0, data original)) (\<lambda>(r, c, d).
       Some (Ok (b\<lparr>data := d\<rparr>))))"

section \<open>Streams and the layout of the headers\<close>

text \<open>
  An input stream is its bytes, the read position and the fail state.  \<open>read\<close> on a failed
  stream extracts nothing; a read past the end extracts what is left and fails the stream;
  \<open>seekg\<close> does nothing on a failed stream.
\<close>

record istream =
  content :: "8 word list"
  gpos :: nat
  failed :: bool

definition istream_open :: "8 word list \<Rightarrow> istream" where
  "istream_open bs = \<lparr>content = bs, gpos = 0, failed = False\<rparr>"

definition istream_read :: "nat \<Rightarrow> istream \<Rightarrow> 8 word list \<times> istream" where
  "istream_read n s =
     (if failed s then ([], s)
      else let avail = drop (gpos s) (content s)
           in if n \<le> length avail then (take n avail, s\<lparr>gpos := gpos s + n\<rparr>)
              else (avail, s\<lparr>gpos := gpos s + length avail, failed := True\<rparr>))"

definition istream_seekg :: "nat \<Rightarrow> istream \<Rightarrow> istream" where
  "istream_seekg off s = (if failed s then s else s\<lparr>gpos := off\<rparr>)"

text \<open>
  \<open>in.read((char *)&object, n)\<close> overwrites the first bytes of the object with the bytes
  extracted and leaves the rest as it was.
\<close>

definition overlay :: "8 word list \<Rightarrow> 8 word list \<Rightarrow> 8 word list" where
  "overlay bytes object = bytes @ drop (length bytes) object"

text \<open>
  The structs are packed (\<open>#pragma pack(push, 1)\<close>) and read and written as raw memory;
  the fields are little-endian, 14, 40 and 84 bytes in all.
\<close>

fun to_le :: "nat \<Rightarrow> 'a::len word \<Rightarrow> 8 word list" where
  "to_le 0 w = []"
| "to_le (Suc k) w = ucast w # to_le k (drop_bit 8 w)"

fun of_le :: "8 word list \<Rightarrow> 'a::len word" where
  "of_le [] = 0"
| "of_le (x # xs) = ucast x OR push_bit 8 (of_le xs)"

definition BMPFileHeader_bytes :: "BMPFileHeader \<Rightarrow> 8 word list" where
  "BMPFileHeader_bytes h =
     to_le 2 (file_type h) @ to_le 4 (file_size h) @ to_le 2 (reserved1 h) @
     to_le 2 (reserved2 h) @ to_le 4 (offset_data h)"

definition BMPFileHeader_of_bytes :: "8 word list \<Rightarrow> BMPFileHeader" where
  "BMPFileHeader_of_bytes bs =
     \<lparr>file_type = of_le (take 2 bs), file_size = of_le (take 4 (drop 2 bs)),
      reserved1 = of_le (take 2 (drop 6 bs)), reserved2 = of_le (take 2 (drop 8 bs)),
      offset_data = of_le (take 4 (drop 10 bs))\<rparr>"

definition BMPInfoHeader_bytes :: "BMPInfoHeader \<Rightarrow> 8 word list" where
  "BMPInfoHeader_bytes h =
     to_le 4 (size_field h) @ to_le 4 (width h) @ to_le 4 (height h) @ to_le 2 (planes h) @
     to_le 2 (bit_count h) @ to_le 4 (compression h) @ to_le 4 (size_image h) @
     to_le 4 (x_pixels_per_meter h) @ to_le 4 (y_pixels_per_meter h) @
     to_le 4 (colors_used h) @ to_le 4 (colors_important h)"

definition BMPInfoHeader_of_bytes :: "8 word list \<Rightarrow> BMPInfoHeader" where
  "BMPInfoHeader_of_bytes bs =
     \<lparr>size_field = of_le (take 4 bs), width = of_le (take 4 (drop 4 bs)),
      height = of_le (take 4 (drop 8 bs)), planes = of_le (take 2 (drop 12 bs)),
      bit_count = of_le (take 2 (drop 14 bs)), compression = of_le (take 4 (drop 16 bs)),
      size_image = of_le (take 4 (drop 20 bs)),
      x_pixels_per_meter = of_le (take 4 (drop 24 bs)),
      y_pixels_per_meter = of_le (take 4 (drop 28 bs)),
      colors_used = of_le (take 4 (drop 32 bs)),
      colors_important = of_le (take 4 (drop 36 bs))\<rparr>"

definition BMPColorHeader_bytes :: "BMPColorHeader \<Rightarrow> 8 word list" where
  "BMPColorHeader_bytes h =
     to_le 4 (red_mask h) @ to_le 4 (green_mask h) @ to_le 4 (blue_mask h) @
     to_le 4 (alpha_mask h) @ to_le 4 (color_space_type h) @
     concat (map (\<lambda>i. to_le 4 (unused h ! i)) [0..<16])"

definition BMPColorHeader_of_bytes :: "8 word list \<Rightarrow> BMPColorHeader" where
  "BMPColorHeader_of_bytes bs =
     \<lparr>red_mask = of_le (take 4 bs), green_mask = of_le (take 4 (drop 4 bs)),
      blue_mask = of_le (take 4 (drop 8 bs)), alpha_mask = of_le (take 4 (drop 12 bs)),
      color_space_type = of_le (take 4 (drop 16 bs)),
      unused = map (\<lambda>i. of_le (take 4 (drop (20 + 4 * i) bs))) [0..<16]\<rparr>"

section \<open>operator>>\<close>

text \<open>
  How a call of \<open>operator>>\<close> ends, with the bitmap and the stream the caller is left
  with.  A \<open>std::runtime_error\<close> leaves the function, and so does the \<open>std::length_error\<close>
  of \<open>resize\<close> with a negative size.  The \<open>BitmapException\<close> is caught by the handler
  of the function itself, which prints it; control then reaches the end of the function.
\<close>

datatype decode_outcome =
    Returned Bitmap istream
  | Threw_runtime_error Bitmap istream
  | Threw_length_error Bitmap istream
  | Caught_BitmapException Bitmap istream

text \<open>\<open>Bitmap::make_stride_aligned\<close>: \<open>new_stride++\<close> wraps at \<open>2 ^ 32\<close>.\<close>

function stride_loop :: "32 word \<Rightarrow> 32 word \<Rightarrow> 32 word" where
  "stride_loop align_stride new_stride =
     (if align_stride \<noteq> 0 \<and> new_stride mod align_stride \<noteq> 0
      then stride_loop align_stride (new_stride + 1) else new_stride)"
  by pat_completeness auto

termination
proof (relation "measure (\<lambda>(a, ns). unat (- ns))")
  show "wf (measure (\<lambda>(a :: 32 word, ns :: 32 word). unat (- ns)))" by simp
next
  fix a ns :: "32 word"
  assume "a \<noteq> 0 \<and> ns mod a \<noteq> 0"
  then have "ns \<noteq> 0" by auto
  then have "- ns \<noteq> 0" by simp
  then have "unat (- ns - 1) < unat (- ns)"
    by (simp add: unat_minus_one unat_gt_0)
  moreover have "- (ns + 1) = - ns - 1" by simp
  ultimately have "unat (- (ns + 1)) < unat (- ns)" by (simp only:)
  then show "((a, ns + 1), (a, ns)) \<in> measure (\<lambda>(a, ns). unat (- ns))"
    by simp
qed

definition make_stride_aligned :: "Bitmap \<Rightarrow> 32 word \<Rightarrow> 32 word comp" where
  "make_stride_aligned b align_stride =
     (if align_stride = 0 then Some (Fault Division_by_zero)
      else Some (Ok (stride_loop align_stride (row_stride b))))"

text \<open>
  \<open>in.read((char *)(b.data.data() + b.row_stride * y), b.row_stride)\<close> stores the bytes
  extracted at that offset of the vector; the padding bytes go to \<open>padding_row\<close>.
\<close>

definition blit :: "8 word list \<Rightarrow> int \<Rightarrow> 8 word list \<Rightarrow> 8 word list comp" where
  "blit d off bytes =
     (if bytes = [] then Some (Ok d)
      else if 0 \<le> off \<and> off + int (length bytes) \<le> int (length d)
      then Some (Ok (take (nat off) d @ bytes @ drop (nat off + length bytes) d))
      else Some (Fault (Buffer_out_of_range (off + int (length bytes) - 1))))"

definition read_row ::
  "Bitmap \<Rightarrow> nat \<Rightarrow> int \<Rightarrow> 8 word list \<times> istream \<Rightarrow> (8 word list \<times> istream) comp" where
  "read_row b padding y st =
     (let (row, s1) = istream_read (unat (row_stride b)) (snd st);
          (pad, s2) = istream_read padding s1
      in bindR (blit (fst st) (row_offset (row_stride b) y) row) (\<lambda>d. Some (Ok (d, s2))))"

text \<open>\<open>b.data.resize(n)\<close> keeps the bytes it has and appends zeros.\<close>

definition resize :: "nat \<Rightarrow> 8 word list \<Rightarrow> 8 word list" where
  "resize n d = take n d @ replicate (n - length d) 0"

text \<open>
  The pixel data: in one block when \<open>width % 4 == 0\<close>, else row by row.  Only the second
  branch assigns \<open>row_stride\<close>.
\<close>

definition read_pixels :: "Bitmap \<Rightarrow> istream \<Rightarrow> decode_outcome comp" where
  "read_pixels b s =
     (if img_width b smod 4 = 0
      then
        let (bytes, s1) = istream_read (length (data b)) s;
            fh = file_header b
        in Some (Ok (Returned
             (b\<lparr>data := overlay bytes (data b),
                file_header := fh\<lparr>file_size := file_size fh + word_of_nat (length (data b))\<rparr>\<rparr>)
             s1))
      else
        bindR (ck_int (img_width b * uint (bit_count (bmp_info_header b)))) (\<lambda>bits.
          let b = b\<lparr>row_stride := word_of_int (bits sdiv 8)\<rparr> in
          bindR (make_stride_aligned b 4) (\<lambda>new_stride.
            let padding = unat (new_stride - row_stride b) in
            bindR (while_loop (\<lambda>y. y < img_height b) (\<lambda>y. y + 1) (read_row b padding) 0
                     (data b, s)) (\<lambda>(d, s1).
              let fh = file_header b
              in Some (Ok (Returned
                   (b\<lparr>data := d,
                      file_header := fh\<lparr>file_size := file_size fh + (word_of_nat (length d)
                          + height (bmp_info_header b) * word_of_nat padding)\<rparr>\<rparr>)
                   s1))))))"

text \<open>
  The headers.  The result is \<open>Inl\<close> where the function ends early and \<open>Inr\<close> with the
  bitmap and stream otherwise.
\<close>

definition read_headers :: "istream \<Rightarrow> Bitmap \<Rightarrow> decode_outcome + Bitmap \<times> istream" where
  "read_headers s b =
     (let (bytes, s) = istream_read 14 s;
          b = b\<lparr>file_header :=
                  BMPFileHeader_of_bytes (overlay bytes (BMPFileHeader_bytes (file_header b)))\<rparr>
      in
      if file_type (file_header b) \<noteq> 0x4D42 then Inl (Threw_runtime_error b s)
      else
        let (bytes, s) = istream_read 40 s;
            b = b\<lparr>bmp_info_header :=
                    BMPInfoHeader_of_bytes (overlay bytes (BMPInfoHeader_bytes (bmp_info_header b)))\<rparr>;
            b = b\<lparr>imageType := bit_count (bmp_info_header b) div 8\<rparr>
        in
        if bit_count (bmp_info_header b) = 32
        then
          if size_field (bmp_info_header b) \<ge> 124
          then
            let (bytes, s) = istream_read 84 s
            in Inr (b\<lparr>bmp_color_header := BMPColorHeader_of_bytes
                        (overlay bytes (BMPColorHeader_bytes (bmp_color_header b)))\<rparr>, s)
          else Inl (Caught_BitmapException b s)
        else Inr (b, s))"

text \<open>"Adjust the header fields for output", and the size passed to \<open>resize\<close>,
  \<open>width * 3 * 3 * height * bit_count / 8\<close>, computed in \<open>int\<close> from left to right.\<close>

definition adjust_headers :: "Bitmap \<Rightarrow> Bitmap" where
  "adjust_headers b =
     (let hsize = (if bit_count (bmp_info_header b) = 32 then 124 else 40)
      in b\<lparr>bmp_info_header := (bmp_info_header b)\<lparr>size_field := hsize\<rparr>,
           file_header := (file_header b)\<lparr>offset_data := 14 + hsize, file_size := 14 + hsize\<rparr>\<rparr>)"

definition buffer_size :: "Bitmap \<Rightarrow> int comp" where
  "buffer_size b =
     bindR (ck_int (img_width b * 3)) (\<lambda>n.
     bindR (ck_int (n * 3)) (\<lambda>n.
     bindR (ck_int (n * img_height b)) (\<lambda>n.
     bindR (ck_int (n * uint (bit_count (bmp_info_header b)))) (\<lambda>n.
       Some (Ok (n sdiv 8))))))"

definition decode :: "istream \<Rightarrow> Bitmap \<Rightarrow> decode_outcome comp" where
  "decode s b =
     (if failed s then Some (Ok (Threw_runtime_error b s))
      else
        case read_headers s b of
          Inl outcome \<Rightarrow> Some (Ok outcome)
        | Inr (b, s) \<Rightarrow>
            let s = istream_seekg (unat (offset_data (file_header b))) s;
                b = adjust_headers b
            in bindR (buffer_size b) (\<lambda>n.
                 if n < 0 then Some (Ok (Threw_length_error b s))
                 else read_pixels (b\<lparr>data := resize (nat n) (data b)\<rparr>) s))"

section \<open>operator<<\<close>

text \<open>An output stream is the bytes written so far.\<close>

record ostream =
  written :: "8 word list"
  ofailed :: bool

definition ostream_open :: ostream where
  "ostream_open = \<lparr>written = [], ofailed = False\<rparr>"

definition ostream_write :: "8 word list \<Rightarrow> ostream \<Rightarrow> ostream" where
  "ostream_write bytes out = (if ofailed out then out else out\<lparr>written := written out @ bytes\<rparr>)"

datatype encode_outcome =
    Written ostream
  | Write_threw_runtime_error ostream

definition write_headers :: "Bitmap \<Rightarrow> ostream \<Rightarrow> ostream" where
  "write_headers b out =
     (let out = ostream_write (BMPFileHeader_bytes (file_header b)) out;
          out = ostream_write (BMPInfoHeader_bytes (bmp_info_header b)) out
      in if bit_count (bmp_info_header b) = 32
         then ostream_write (BMPColorHeader_bytes (bmp_color_header b)) out
         else out)"

definition write_headers_and_data :: "Bitmap \<Rightarrow> ostream \<Rightarrow> ostream" where
  "write_headers_and_data b out = ostream_write (data b) (write_headers b out)"

text \<open>\<open>out.write((const char *)(row), b.row_stride)\<close> reads that many bytes of the vector.\<close>

definition slice :: "8 word list \<Rightarrow> int \<Rightarrow> nat \<Rightarrow> 8 word list comp" where
  "slice d off n =
     (if n = 0 then Some (Ok [])
      else if 0 \<le> off \<and> off + int n \<le> int (length d)
      then Some (Ok (take n (drop (nat off) d)))
      else Some (Fault (Buffer_out_of_range (off + int n - 1))))"

definition write_row :: "Bitmap \<Rightarrow> nat \<Rightarrow> int \<Rightarrow> ostream \<Rightarrow> ostream comp" where
  "write_row b padding y out =
     bindR (slice (data b) (row_offset (row_stride b) y) (unat (row_stride b))) (\<lambda>row.
       Some (Ok (ostream_write (replicate padding 0) (ostream_write row out))))"

text \<open>
  The statements of \<open>operator<<\<close>, up to its closing brace: what has been written when the
  last statement is done, or the \<open>std::runtime_error\<close> thrown.
\<close>

definition encode_body :: "ostream \<Rightarrow> Bitmap \<Rightarrow> encode_outcome comp" where
  "encode_body out b =
     (if ofailed out then Some (Ok (Write_threw_runtime_error out))
      else if bit_count (bmp_info_header b) = 32
      then Some (Ok (Written (write_headers_and_data b out)))
      else if bit_count (bmp_info_header b) = 24
      then
        if img_width b smod 4 = 0
        then Some (Ok (Written (write_headers_and_data b out)))
        else
          bindR (make_stride_aligned b 4) (\<lambda>new_stride.
            let padding = unat (new_stride - row_stride b) in
            bindR (while_loop (\<lambda>y. y < img_height b) (\<lambda>y. y + 1) (write_row b padding) 0
                     (write_headers b out)) (\<lambda>out. Some (Ok (Written out))))
      else Some (Ok (Write_threw_runtime_error out)))"

text \<open>
  \<open>operator<<\<close> is declared to return \<open>std::ostream &\<close> and has no \<open>return\<close> statement.
  A call that throws leaves by the exception.  Every other call reaches the closing brace
  of a function that returns a value, which is undefined behaviour.
\<close>

definition encode :: "ostream \<Rightarrow> Bitmap \<Rightarrow> encode_outcome comp" where
  "encode out b =
     bindR (encode_body out b) (\<lambda>r.
       case r of
         Written out' \<Rightarrow> Some (Fault Missing_return)
       | Write_threw_runtime_error out' \<Rightarrow> Some (Ok r))"

section \<open>The contract of the filters\<close>

text \<open>
  The filters assume a buffer with a valid stride and valid dimensions: three or four
  bytes per pixel, rows that do not overlap, every row inside the vector, and offsets
  that fit the integer types they are computed in.
\<close>

definition valid_bitmap :: "Bitmap \<Rightarrow> bool" where
  "valid_bitmap b \<longleftrightarrow>
     (bpp b = 3 \<or> bpp b = 4) \<and> 0 \<le> img_width b \<and> 0 \<le> img_height b \<and>
     img_width b * bpp b \<le> uint (row_stride b) \<and>
     img_width b * bpp b < 2 ^ 31 \<and>
     img_height b * uint (row_stride b) \<le> int (length (data b)) \<and>
     img_height b * uint (row_stride b) < 2 ^ 32"

text \<open>The byte offset of channel \<open>ch\<close> of the pixel in column \<open>x\<close> of row \<open>y\<close>.\<close>

definition pix_addr :: "Bitmap \<Rightarrow> int \<Rightarrow> int \<Rightarrow> int \<Rightarrow> nat" where
  "pix_addr b y x ch = nat (uint (row_stride b) * y + x * bpp b + ch)"

text \<open>
  The specification of the quantisation: \<open>r\<close> is a candidate closest to \<open>v\<close>, and the
  first such candidate in the order of the list.
\<close>

definition channel_dist :: "8 word \<Rightarrow> 8 word \<Rightarrow> int" where
  "channel_dist v c = \<bar>uint v - uint c\<bar>"

definition closest_first :: "8 word list \<Rightarrow> 8 word \<Rightarrow> 8 word \<Rightarrow> bool" where
  "closest_first cands v r \<longleftrightarrow>
     (\<exists>i < length cands. r = cands ! i \<and>
        (\<forall>j < length cands. channel_dist v r \<le> channel_dist v (cands ! j)) \<and>
        (\<forall>j < i. channel_dist v r < channel_dist v (cands ! j)))"

text \<open>The integer average of the channels of a pixel of the bitmap.\<close>

definition channel_average :: "Bitmap \<Rightarrow> int \<Rightarrow> int \<Rightarrow> int" where
  "channel_average b y x =
     (if bpp b = 3
      then (uint (data b ! pix_addr b y x 0) + uint (data b ! pix_addr b y x 1)
            + uint (data b ! pix_addr b y x 2)) div 3
      else (uint (data b ! pix_addr b y x 0) + uint (data b ! pix_addr b y x 1)
            + uint (data b ! pix_addr b y x 2) + uint (data b ! pix_addr b y x 3)) div 4)"

text \<open>
  The specification of the blur: the weights are the outer product of \<open>[1, 4, 6, 4, 1]\<close>
  with itself, and a channel becomes the weighted sum over the 5 by 5 neighbourhood divided
  by 256.
\<close>

definition gauss_weight :: "nat \<Rightarrow> nat \<Rightarrow> int" where
  "gauss_weight i j = [1, 4, 6, 4, 1] ! i * [1, 4, 6, 4, 1] ! j"

definition blur_expected :: "Bitmap \<Rightarrow> int \<Rightarrow> int \<Rightarrow> int \<Rightarrow> int" where
  "blur_expected b y x c =
     (\<Sum>i \<leftarrow> [0, 1, 2, 3, 4]. \<Sum>j \<leftarrow> [0, 1, 2, 3, 4].
        uint (data b ! pix_addr b (y + int i - 2) (x + int j - 2) c) * gauss_weight i j) div 256"

text \<open>Everything of a bitmap but the bytes of its buffer.\<close>

definition same_metadata :: "Bitmap \<Rightarrow> Bitmap \<Rightarrow> bool" where
  "same_metadata b b' \<longleftrightarrow>
     file_header b' = file_header b \<and> bmp_info_header b' = bmp_info_header b \<and>
     bmp_color_header b' = bmp_color_header b \<and> row_stride b' = row_stride b \<and>
     imageType b' = imageType b \<and> length (data b') = length (data b)"

text \<open>
  The bitmaps on which both scale functions stay inside the vector and inside the range of
  their counters: three or four bytes per pixel with the matching \<open>bit_count\<close>, positive
  dimensions, \<open>row_stride\<close> at most a row of pixels, a vector of at least nine times the
  pixel data, the pixel data of the doubled image below \<open>2 ^ 32\<close> bytes (the offsets are
  \<open>uint32_t\<close>), and the doubled dimensions at most 65535 (the loop counters are
  \<open>uint16_t\<close>, and beyond that range they wrap).
\<close>

definition scalable :: "Bitmap \<Rightarrow> bool" where
  "scalable b \<longleftrightarrow>
     (bpp b = 3 \<or> bpp b = 4) \<and>
     uint (bit_count (bmp_info_header b)) = 8 * bpp b \<and>
     0 < img_width b \<and> 0 < img_height b \<and>
     2 * img_width b \<le> 65535 \<and> 2 * img_height b \<le> 65535 \<and>
     uint (row_stride b) \<le> img_width b * bpp b \<and>
     9 * (img_width b * bpp b * img_height b) \<le> int (length (data b)) \<and>
     4 * (img_width b * bpp b * img_height b) < 2 ^ 32"

text \<open>The width and height of the bitmap a call returns.\<close>

definition dimensions :: "Bitmap comp \<Rightarrow> (int \<times> int) option" where
  "dimensions m = (case m of Some (Ok b) \<Rightarrow> Some (img_width b, img_height b) | _ \<Rightarrow> None)"

text \<open>The bitmap of a decode that returned, and the stride invariant of the specification.\<close>

definition decoded :: "decode_outcome comp \<Rightarrow> Bitmap option" where
  "decoded r = (case r of Some (Ok (Returned b s)) \<Rightarrow> Some b | _ \<Rightarrow> None)"

definition stride_invariant :: "Bitmap \<Rightarrow> bool" where
  "stride_invariant b \<longleftrightarrow>
     uint (row_stride b) mod 4 = 0 \<and> img_width b * bpp b \<le> uint (row_stride b)"

section \<open>Sample bitmaps\<close>

text \<open>
  A 1 by 1 image of 24 bits per pixel as the decoder leaves it: three bytes of pixel data in
  a vector of \<open>1 * 3 * 3 * 1 * 24 / 8 = 27\<close> bytes.
\<close>

definition sample_1x1 :: Bitmap where
  "sample_1x1 =
     \<lparr>row_stride = 3, imageType = 3,
      file_header = \<lparr>file_type = 0x4D42, file_size = 82, reserved1 = 0, reserved2 = 0,
                      offset_data = 54\<rparr>,
      bmp_info_header = BMPInfoHeader_init\<lparr>size_field := 40, width := 1, height := 1,
                      planes := 1, bit_count := 24, size_image := 4\<rparr>,
      bmp_color_header = BMPColorHeader_init,
      data = [64, 200, 100] @ replicate 24 0\<rparr>"

text \<open>
  A white 6 by 6 image and a black 17 by 17 image of 24 bits per pixel, as the decoder
  leaves them: \<open>row_stride = 3 * width\<close> and a vector of \<open>9 * width * height * 3\<close> bytes whose
  first \<open>height * row_stride\<close> bytes are the pixels.
\<close>

definition sample_white_6x6 :: Bitmap where
  "sample_white_6x6 =
     \<lparr>row_stride = 18, imageType = 3,
      file_header = \<lparr>file_type = 0x4D42, file_size = 1038, reserved1 = 0, reserved2 = 0,
                      offset_data = 54\<rparr>,
      bmp_info_header = BMPInfoHeader_init\<lparr>size_field := 40, width := 6, height := 6,
                      planes := 1, bit_count := 24\<rparr>,
      bmp_color_header = BMPColorHeader_init,
      data = replicate 108 255 @ replicate 864 0\<rparr>"

definition sample_black_17x17 :: Bitmap where
  "sample_black_17x17 =
     \<lparr>row_stride = 51, imageType = 3,
      file_header = \<lparr>file_type = 0x4D42, file_size = 7874, reserved1 = 0, reserved2 = 0,
                      offset_data = 54\<rparr>,
      bmp_info_header = BMPInfoHeader_init\<lparr>size_field := 40, width := 17, height := 17,
                      planes := 1, bit_count := 24\<rparr>,
      bmp_color_header = BMPColorHeader_init,
      data = replicate 7803 0\<rparr>"

text \<open>A white 17 by 17 image of 24 bits per pixel, of the same shape.\<close>

definition sample_white_17x17 :: Bitmap where
  "sample_white_17x17 =
     \<lparr>row_stride = 51, imageType = 3,
      file_header = \<lparr>file_type = 0x4D42, file_size = 7874, reserved1 = 0, reserved2 = 0,
                      offset_data = 54\<rparr>,
      bmp_info_header = BMPInfoHeader_init\<lparr>size_field := 40, width := 17, height := 17,
                      planes := 1, bit_count := 24\<rparr>,
      bmp_color_header = BMPColorHeader_init,
      data = replicate 867 255 @ replicate 6936 0\<rparr>"

text \<open>
  A 21846 by 2 image of 24 bits per pixel as the decoder leaves it: a row has
  \<open>3 * 21846 = 65538\<close> bytes.
\<close>

definition sample_wide :: Bitmap where
  "sample_wide =
     \<lparr>row_stride = 65538, imageType = 3,
      file_header = \<lparr>file_type = 0x4D42, file_size = 1179742, reserved1 = 0, reserved2 = 0,
                      offset_data = 54\<rparr>,
      bmp_info_header = BMPInfoHeader_init\<lparr>size_field := 40, width := 21846, height := 2,
                      planes := 1, bit_count := 24\<rparr>,
      bmp_color_header = BMPColorHeader_init,
      data = replicate 1179684 0\<rparr>"

text \<open>
  A 2 by 1 and a 4 by 1 image of 24 bits per pixel as the decoder leaves them.  The decoder
  sets \<open>row_stride\<close> only when the width is not a multiple of 4, so the second one still has
  the 0 of the constructor.
\<close>

definition sample_2x1 :: Bitmap where
  "sample_2x1 =
     \<lparr>row_stride = 6, imageType = 3,
      file_header = \<lparr>file_type = 0x4D42, file_size = 110, reserved1 = 0, reserved2 = 0,
                      offset_data = 54\<rparr>,
      bmp_info_header = BMPInfoHeader_init\<lparr>size_field := 40, width := 2, height := 1,
                      planes := 1, bit_count := 24\<rparr>,
      bmp_color_header = BMPColorHeader_init,
      data = [1, 2, 3, 4, 5, 6] @ replicate 48 0\<rparr>"

definition sample_4x1 :: Bitmap where
  "sample_4x1 =
     \<lparr>row_stride = 0, imageType = 3,
      file_header = \<lparr>file_type = 0x4D42, file_size = 162, reserved1 = 0, reserved2 = 0,
                      offset_data = 54\<rparr>,
      bmp_info_header = BMPInfoHeader_init\<lparr>size_field := 40, width := 4, height := 1,
                      planes := 1, bit_count := 24\<rparr>,
      bmp_color_header = BMPColorHeader_init,
      data = [1, 2, 3, 4, 5, 6, 7, 8, 9, 10, 11, 12] @ replicate 96 0\<rparr>"

text \<open>
  Two streams of a 1 by 1 image, with 24 and with 32 bits per pixel.  Both have a 40-byte
  info header; the second one has no colour masks.  \<open>sample_1x1\<close> is what the decoder makes
  of the first.
\<close>

definition stream_1x1 :: "8 word list" where
  "stream_1x1 =
     [0x42, 0x4D, 58, 0, 0, 0, 0, 0, 0, 0, 54, 0, 0, 0,
      40, 0, 0, 0, 1, 0, 0, 0, 1, 0, 0, 0, 1, 0, 24, 0, 0, 0, 0, 0, 4, 0, 0, 0,
      0, 0, 0, 0, 0, 0, 0, 0, 0, 0, 0, 0, 0, 0, 0, 0,
      64, 200, 100, 0]"


text \<open>
  The headers of a 4000 by 3000 image of 24 bits per pixel, without pixel data.
\<close>

definition stream_4000x3000_headers :: "8 word list" where
  "stream_4000x3000_headers =
     [0x42, 0x4D, 54, 0, 0, 0, 0, 0, 0, 0, 54, 0, 0, 0,
      40, 0, 0, 0, 0xA0, 0x0F, 0, 0, 0xB8, 0x0B, 0, 0, 1, 0, 24, 0, 0, 0, 0, 0, 0, 0, 0, 0,
      0, 0, 0, 0, 0, 0, 0, 0, 0, 0, 0, 0, 0, 0, 0, 0]"

text \<open>
  The stream of a 4 by 2 image of 24 bits per pixel: a 54-byte header and two rows of 12
  bytes, which need no padding.  \<open>sample_4x2\<close> is what the decoder makes of it: the width is
  a multiple of 4, so \<open>row_stride\<close> keeps the 0 of the constructor.
\<close>

definition stream_4x2 :: "8 word list" where
  "stream_4x2 =
     [0x42, 0x4D, 78, 0, 0, 0, 0, 0, 0, 0, 54, 0, 0, 0,
      40, 0, 0, 0, 4, 0, 0, 0, 2, 0, 0, 0, 1, 0, 24, 0, 0, 0, 0, 0, 24, 0, 0, 0,
      0, 0, 0, 0, 0, 0, 0, 0, 0, 0, 0, 0, 0, 0, 0, 0,
      10, 11, 12, 13, 14, 15, 16, 17, 18, 19, 20, 21,
      22, 23, 24, 25, 26, 27, 28, 29, 30, 31, 32, 33]"

definition sample_4x2 :: Bitmap where
  "sample_4x2 =
     \<lparr>row_stride = 0, imageType = 3,
      file_header = \<lparr>file_type = 0x4D42, file_size = 270, reserved1 = 0, reserved2 = 0,
                      offset_data = 54\<rparr>,
      bmp_info_header = BMPInfoHeader_init\<lparr>size_field := 40, width := 4, height := 2,
                      planes := 1, bit_count := 24, size_image := 24\<rparr>,
      bmp_color_header = BMPColorHeader_init,
      data = [10, 11, 12, 13, 14, 15, 16, 17, 18, 19, 20, 21,
              22, 23, 24, 25, 26, 27, 28, 29, 30, 31, 32, 33] @ replicate 192 0\<rparr>"

section \<open>The contract of the codec\<close>

text \<open>
  What \<open>operator>>\<close> holds after it has read the headers of the stream \<open>bs\<close>: the file
  header from the first 14 bytes, the info header from the next 40, and the colour header
  from the next 84 when the image has 32 bits per pixel.
\<close>

definition parsed_headers :: "8 word list \<Rightarrow> Bitmap" where
  "parsed_headers bs =
     (let ih = BMPInfoHeader_of_bytes (take 40 (drop 14 bs))
      in Bitmap_init\<lparr>file_header := BMPFileHeader_of_bytes (take 14 bs),
           bmp_info_header := ih,
           imageType := bit_count ih div 8,
           bmp_color_header :=
             (if bit_count ih = 32 then BMPColorHeader_of_bytes (take 84 (drop 54 bs))
              else BMPColorHeader_init)\<rparr>)"

text \<open>
  A well-formed stream of 24 or 32 bits per pixel: it holds the headers, it starts with
  the signature \<open>BM\<close>, a 32-bit image announces an info header long enough for the colour
  masks, the dimensions are positive, and the size that \<open>operator>>\<close> computes for
  the buffer fits the \<open>int\<close> it is computed in.
\<close>

definition well_formed_headers :: "8 word list \<Rightarrow> bool" where
  "well_formed_headers bs \<longleftrightarrow>
     (let b = parsed_headers bs; bits = uint (bit_count (bmp_info_header b))
      in 54 \<le> length bs \<and> file_type (file_header b) = 0x4D42 \<and>
         (bits = 24 \<or>
          bits = 32 \<and> 124 \<le> size_field (bmp_info_header b) \<and> 138 \<le> length bs) \<and>
         0 < img_width b \<and> 0 < img_height b \<and>
         img_width b * 3 * 3 * img_height b * bits < 2 ^ 31)"

text \<open>The length that \<open>operator>>\<close> gives to the buffer.\<close>

definition buffer_len :: "Bitmap \<Rightarrow> nat" where
  "buffer_len b = nat ((img_width b * 3 * 3 * img_height b * uint (bit_count (bmp_info_header b))) div 8)"

text \<open>
  The length of a row without its padding, the number of padding bytes that follow it in
  the stream, and the bitmap once \<open>row_stride\<close> holds the former.
\<close>

definition packed_stride :: "Bitmap \<Rightarrow> int" where
  "packed_stride b = (img_width b * uint (bit_count (bmp_info_header b))) div 8"

definition row_padding :: "Bitmap \<Rightarrow> nat" where
  "row_padding b = nat ((packed_stride b + 3) div 4 * 4 - packed_stride b)"

definition with_stride :: "Bitmap \<Rightarrow> Bitmap" where
  "with_stride b = b\<lparr>row_stride := word_of_int (packed_stride b)\<rparr>"

text \<open>
  The bitmap before \<open>operator>>\<close> reads the pixels, and the bitmap after it has read
  them row by row into the buffer \<open>d\<close>.
\<close>

definition start_bitmap :: "8 word list \<Rightarrow> Bitmap" where
  "start_bitmap bs =
     (adjust_headers (parsed_headers bs))\<lparr>data := replicate (buffer_len (parsed_headers bs)) 0\<rparr>"

definition finish_rows :: "Bitmap \<Rightarrow> 8 word list \<Rightarrow> Bitmap" where
  "finish_rows b d =
     (with_stride b)\<lparr>data := d,
        file_header := (file_header b)\<lparr>file_size := file_size (file_header b)
           + (word_of_nat (length d)
              + height (bmp_info_header b) * word_of_nat (row_padding b))\<rparr>\<rparr>"

text \<open>
  The bytes that \<open>operator<<\<close> writes: the headers, and the rows of the buffer, each followed
  by its padding.
\<close>

definition header_bytes :: "Bitmap \<Rightarrow> 8 word list" where
  "header_bytes b =
     BMPFileHeader_bytes (file_header b) @ BMPInfoHeader_bytes (bmp_info_header b) @
     (if bit_count (bmp_info_header b) = 32 then BMPColorHeader_bytes (bmp_color_header b) else [])"

definition padded_rows :: "Bitmap \<Rightarrow> nat \<Rightarrow> nat \<Rightarrow> 8 word list" where
  "padded_rows b pad n =
     concat (map (\<lambda>y. take (unat (row_stride b)) (drop (unat (row_stride b) * y) (data b))
                        @ replicate pad 0) [0..<n])"

text \<open>
  The round trip of the codec keeps the buffer and the normalised header fields: the size
  of the info header, the offset of the pixels, the size of the file, the width, the height
  and the number of bits per pixel.
\<close>

definition round_trip_equal :: "Bitmap \<Rightarrow> Bitmap \<Rightarrow> bool" where
  "round_trip_equal b1 b2 \<longleftrightarrow>
     data b2 = data b1 \<and>
     size_field (bmp_info_header b2) = size_field (bmp_info_header b1) \<and>
     offset_data (file_header b2) = offset_data (file_header b1) \<and>
     file_size (file_header b2) = file_size (file_header b1) \<and>
     width (bmp_info_header b2) = width (bmp_info_header b1) \<and>
     height (bmp_info_header b2) = height (bmp_info_header b1) \<and>
     bit_count (bmp_info_header b2) = bit_count (bmp_info_header b1)"

section \<open>Loop invariants\<close>

text \<open>
  \<open>cellShade\<close>: the buffer when the loops stand before channel \<open>c\<close> of pixel \<open>x\<close> of row
  \<open>y\<close>.  Every byte is the old one or its quantisation, and the channels already
  visited are quantised.
\<close>

definition shaded_upto :: "Bitmap \<Rightarrow> int \<Rightarrow> int \<Rightarrow> int \<Rightarrow> 8 word list \<Rightarrow> bool" where
  "shaded_upto b y x c d \<longleftrightarrow>
     length d = length (data b) \<and>
     (\<forall>a < length (data b). d ! a = data b ! a \<or> d ! a = nearesetNumber (data b ! a)) \<and>
     (\<forall>y' x' c'. 0 \<le> y' \<and> 0 \<le> x' \<and> x' < img_width b \<and> 0 \<le> c' \<and> c' < bpp b \<and>
         (y' < y \<or> y' = y \<and> (x' < x \<or> x' = x \<and> c' < c)) \<longrightarrow>
         d ! pix_addr b y' x' c' = nearesetNumber (data b ! pix_addr b y' x' c'))"


text \<open>
  \<open>grayscale\<close>: before pixel \<open>x\<close> of row \<open>y\<close>, the pixels already visited hold their
  average in every channel and the others are as they were.
\<close>

definition gray_upto :: "Bitmap \<Rightarrow> int \<Rightarrow> int \<Rightarrow> 8 word list \<Rightarrow> bool" where
  "gray_upto b y x d \<longleftrightarrow>
     length d = length (data b) \<and>
     (\<forall>y' x' c. 0 \<le> y' \<and> y' < img_height b \<and> 0 \<le> x' \<and> x' < img_width b \<and>
                0 \<le> c \<and> c < bpp b \<longrightarrow>
        (if y' < y \<or> y' = y \<and> x' < x
         then uint (d ! pix_addr b y' x' c) = channel_average b y' x'
         else d ! pix_addr b y' x' c = data b ! pix_addr b y' x' c))"

text \<open>The header \<open>scale_header\<close> returns when nothing overflows and \<open>w\<close> needs no padding.\<close>

definition scaled_header :: "Bitmap \<Rightarrow> int \<Rightarrow> int \<Rightarrow> Bitmap" where
  "scaled_header b w h =
     b\<lparr>bmp_info_header := (bmp_info_header b)\<lparr>width := word_of_int w, height := word_of_int h\<rparr>,
       row_stride := word_of_int (w * bpp b)\<rparr>"

section \<open>Rules for loops\<close>

lemma bindR_simps [simp]:
  "bindR None f = None"
  "bindR (Some (Fault e)) f = Some (Fault e)"
  "bindR (Some (Ok a)) f = f a"
  by (simp_all add: bindR_def)

lemma while_loop_total:
  fixes m :: "'i \<Rightarrow> nat"
  assumes init: "I i s"
    and step: "\<And>i s. I i s \<Longrightarrow> cond i \<Longrightarrow>
                 \<exists>s'. body i s = Some (Ok s') \<and> I (nxt i) s' \<and> m (nxt i) < m i"
  shows "\<exists>i' s'. while_loop cond nxt body i s = Some (Ok s') \<and> I i' s' \<and> \<not> cond i'"
  using init
proof (induction "m i" arbitrary: i s rule: less_induct)
  case less
  show ?case
  proof (cases "cond i")
    case False
    have "while_loop cond nxt body i s = Some (Ok s)"
      using False by (subst while_loop.simps) simp
    then show ?thesis using False less.prems by blast
  next
    case True
    from step[OF less.prems True] obtain s' where
      b: "body i s = Some (Ok s')" and I': "I (nxt i) s'" and dec: "m (nxt i) < m i"
      by blast
    from less.hyps[OF dec I'] obtain i' s'' where
      r: "while_loop cond nxt body (nxt i) s' = Some (Ok s'')" "I i' s''" "\<not> cond i'"
      by blast
    have "while_loop cond nxt body i s = Some (Ok s'')"
      using True b r(1) by (subst while_loop.simps) simp
    then show ?thesis using r by blast
  qed
qed

lemma for_int_total:
  fixes lo hi :: int
  assumes le: "lo \<le> hi"
    and init: "I lo s"
    and step: "\<And>i s. lo \<le> i \<Longrightarrow> i < hi \<Longrightarrow> I i s \<Longrightarrow>
                 \<exists>s'. body i s = Some (Ok s') \<and> I (i + 1) s'"
  shows "\<exists>s'. while_loop (\<lambda>i. i < hi) (\<lambda>i. i + 1) body lo s = Some (Ok s') \<and> I hi s'"
proof -
  let ?I = "\<lambda>i s. lo \<le> i \<and> i \<le> hi \<and> I i s"
  have "\<exists>i' s'. while_loop (\<lambda>i. i < hi) (\<lambda>i. i + 1) body lo s = Some (Ok s')
          \<and> ?I i' s' \<and> \<not> i' < hi"
  proof (rule while_loop_total[where I = ?I and m = "\<lambda>i. nat (hi - i)"])
    show "?I lo s" using le init by simp
  next
    fix i s assume a: "?I i s" "i < hi"
    with step[of i s] obtain s' where "body i s = Some (Ok s')" "I (i + 1) s'" by blast
    with a show "\<exists>s'. body i s = Some (Ok s') \<and> ?I (i + 1) s' \<and> nat (hi - (i + 1)) < nat (hi - i)"
      by auto
  qed
  then obtain i' s' where r: "while_loop (\<lambda>i. i < hi) (\<lambda>i. i + 1) body lo s = Some (Ok s')"
      "?I i' s'" "\<not> i' < hi" by blast
  then have "i' = hi" by simp
  with r show ?thesis by blast
qed

lemma for_word_total:
  fixes body :: "'a::len word \<Rightarrow> 's \<Rightarrow> 's comp"
  assumes n: "0 \<le> n" "n < 2 ^ LENGTH('a)"
    and init: "I 0 s"
    and step: "\<And>i s. 0 \<le> i \<Longrightarrow> i < n \<Longrightarrow> I i s \<Longrightarrow>
                 \<exists>s'. body (word_of_int i) s = Some (Ok s') \<and> I (i + 1) s'"
  shows "\<exists>s'. while_loop (\<lambda>i. uint i < n) (\<lambda>i. i + 1) body 0 s = Some (Ok s') \<and> I n s'"
proof -
  let ?I = "\<lambda>(w :: 'a word) s. uint w \<le> n \<and> I (uint w) s"
  have "\<exists>i' s'. while_loop (\<lambda>i. uint i < n) (\<lambda>i. i + 1) body 0 s = Some (Ok s')
          \<and> ?I i' s' \<and> \<not> uint i' < n"
  proof (rule while_loop_total[where I = ?I and m = "\<lambda>w. nat (n - uint w)"])
    show "?I 0 s" using n init by simp
  next
    fix w :: "'a word" and s assume a: "?I w s" "uint w < n"
    have u: "uint (w + 1) = uint w + 1"
      using a n by (simp add: uint_word_ariths mod_pos_pos_trivial)
    from step[of "uint w" s] a obtain s' where
      "body w s = Some (Ok s')" "I (uint w + 1) s'" by auto
    with a u show "\<exists>s'. body w s = Some (Ok s') \<and> ?I (w + 1) s'
        \<and> nat (n - uint (w + 1)) < nat (n - uint w)"
      by auto
  qed
  then obtain i' s' where r: "while_loop (\<lambda>i. uint i < n) (\<lambda>i. i + 1) body 0 s = Some (Ok s')"
      "?I i' s'" "\<not> uint i' < n" by blast
  then have "uint i' = n" by simp
  with r show ?thesis by auto
qed

lemma while_loop_diverges:
  assumes init: "I i s"
    and step: "\<And>i s. I i s \<Longrightarrow>
                 cond i \<and> (body i s = None \<or> (\<exists>s'. body i s = Some (Ok s') \<and> I (nxt i) s'))"
  shows "while_loop cond nxt body i s = None"
proof (rule ccontr)
  assume "while_loop cond nxt body i s \<noteq> None"
  then obtain r where r: "while_loop cond nxt body i s = Some r" by auto
  have "cond = cond \<and> nxt = nxt \<and> body = body \<longrightarrow> I i s \<longrightarrow> False"
  proof (rule while_loop.raw_induct[where P = "\<lambda>c n bd i s r.
            c = cond \<and> n = nxt \<and> bd = body \<longrightarrow> I i s \<longrightarrow> False", OF _ r])
    fix wl c n bd j t res
    assume ih: "\<And>c n bd j t res. wl c n bd j t = Some res \<Longrightarrow>
                  c = cond \<and> n = nxt \<and> bd = body \<longrightarrow> I j t \<longrightarrow> False"
      and eq: "(if c j then case bd j t of None \<Rightarrow> None
                  | Some (Ok s') \<Rightarrow> wl c n bd (n j) s'
                  | Some (Fault e) \<Rightarrow> Some (Fault e)
               else Some (Ok t)) = Some res"
    show "c = cond \<and> n = nxt \<and> bd = body \<longrightarrow> I j t \<longrightarrow> False"
    proof (intro impI)
      assume c: "c = cond \<and> n = nxt \<and> bd = body" and i: "I j t"
      from step[OF i] have cj: "cond j"
        and b: "body j t = None \<or> (\<exists>s'. body j t = Some (Ok s') \<and> I (nxt j) s')" by auto
      from b show False
      proof
        assume "body j t = None"
        with eq c cj show False by simp
      next
        assume "\<exists>s'. body j t = Some (Ok s') \<and> I (nxt j) s'"
        then obtain s' where s': "body j t = Some (Ok s')" "I (nxt j) s'" by blast
        with eq c cj have "wl cond nxt body (nxt j) s' = Some res" by simp
        from ih[OF this] s'(2) show False by simp
      qed
    qed
  qed
  with init show False by simp
qed

lemma while_loop_preserves:
  assumes run: "while_loop cond nxt body i s = Some (Ok s')"
    and init: "P s"
    and step: "\<And>i s s'. P s \<Longrightarrow> body i s = Some (Ok s') \<Longrightarrow> P s'"
  shows "P s'"
proof -
  have "cond = cond \<and> nxt = nxt \<and> body = body \<longrightarrow> P s \<longrightarrow> (\<forall>t. Ok s' = Ok t \<longrightarrow> P t)"
  proof (rule while_loop.raw_induct[where P = "\<lambda>c n bd i s r.
            c = cond \<and> n = nxt \<and> bd = body \<longrightarrow> P s \<longrightarrow> (\<forall>t. r = Ok t \<longrightarrow> P t)", OF _ run])
    fix wl c n bd j t res
    assume ih: "\<And>c n bd j t res. wl c n bd j t = Some res \<Longrightarrow>
                  c = cond \<and> n = nxt \<and> bd = body \<longrightarrow> P t \<longrightarrow> (\<forall>u. res = Ok u \<longrightarrow> P u)"
      and eq: "(if c j then case bd j t of None \<Rightarrow> None
                  | Some (Ok s') \<Rightarrow> wl c n bd (n j) s'
                  | Some (Fault e) \<Rightarrow> Some (Fault e)
               else Some (Ok t)) = Some res"
    show "c = cond \<and> n = nxt \<and> bd = body \<longrightarrow> P t \<longrightarrow> (\<forall>u. res = Ok u \<longrightarrow> P u)"
    proof (intro impI allI)
      fix u
      assume c: "c = cond \<and> n = nxt \<and> bd = body" and p: "P t" and u: "res = Ok u"
      show "P u"
      proof (cases "cond j")
        case False
        with eq c u p show ?thesis by simp
      next
        case True
        with eq c u obtain t' where t': "body j t = Some (Ok t')"
          "wl cond nxt body (nxt j) t' = Some (Ok u)"
          by (auto split: option.splits result.splits)
        from step[OF p t'(1)] have "P t'" .
        with ih[OF t'(2)] show ?thesis by simp
      qed
    qed
  qed
  with init show ?thesis by simp
qed

lemma while_loop_stuck:
  fixes i k n :: int
  assumes ik: "i \<le> k" and kn: "k < n"
    and stuck: "\<And>s s'. body k s \<noteq> Some (Ok s')"
  shows "while_loop (\<lambda>j. j < n) (\<lambda>j. j + 1) body i s \<noteq> Some (Ok s')"
  using ik
proof (induction "nat (k - i)" arbitrary: i s)
  case 0
  then have "i = k" by simp
  then show ?case using kn stuck[of s]
    by (subst while_loop.simps) (auto split: option.splits result.splits)
next
  case (Suc m)
  then have m: "m = nat (k - (i + 1))" "i + 1 \<le> k" "i < n" using kn by auto
  show ?case using Suc.hyps(1)[OF m(1) m(2)] m(3)
    by (subst while_loop.simps) (auto split: option.splits result.splits)
qed

lemma bindR_Ok:
  assumes "bindR m f = Some (Ok y)"
  obtains x where "m = Some (Ok x)" "f x = Some (Ok y)"
  using assms by (auto simp: bindR_def split: option.splits result.splits)

lemma store_len: "store d a v = Some (Ok d') \<Longrightarrow> length d' = length d"
  by (auto simp: store_def split: if_splits)

lemma while_state_total:
  fixes m :: "'s \<Rightarrow> nat"
  assumes init: "I s"
    and step: "\<And>s. I s \<Longrightarrow> cond s \<Longrightarrow> \<exists>s'. body s = Some (Ok s') \<and> I s' \<and> m s' < m s"
  shows "\<exists>s'. while_state cond body s = Some (Ok s') \<and> I s' \<and> \<not> cond s'"
  using init
proof (induction "m s" arbitrary: s rule: less_induct)
  case less
  show ?case
  proof (cases "cond s")
    case False
    have "while_state cond body s = Some (Ok s)"
      using False by (subst while_state.simps) simp
    then show ?thesis using False less.prems by blast
  next
    case True
    from step[OF less.prems True] obtain s' where
      b: "body s = Some (Ok s')" and I': "I s'" and dec: "m s' < m s"
      by blast
    from less.hyps[OF dec I'] obtain s'' where
      r: "while_state cond body s' = Some (Ok s'')" "I s''" "\<not> cond s''"
      by blast
    have "while_state cond body s = Some (Ok s'')"
      using True b r(1) by (subst while_state.simps) simp
    then show ?thesis using r by blast
  qed
qed

section \<open>Machine arithmetic within range\<close>

lemma ck_int_Ok: "ck_int i = Some (Ok j) \<Longrightarrow> j = i \<and> - (2 ^ 31) \<le> i \<and> i < 2 ^ 31"
  by (auto simp: ck_int_def split: if_splits)

lemma sint32_signed:
  assumes "- (2 ^ 31) \<le> k" "k < 2 ^ 31"
  shows "sint (word_of_int k :: 32 word) = k"
  using assms by (simp add: sint_sbintrunc' signed_take_bit_int_eq_self)

lemma sint32_small:
  assumes "0 \<le> k" "k < 2 ^ 31"
  shows "sint (word_of_int k :: 32 word) = k"
  using assms by (simp add: sint_uint uint_word_of_int mod_pos_pos_trivial signed_take_bit_int_eq_self)

lemma uint32_small:
  assumes "0 \<le> k" "k < 2 ^ 32"
  shows "uint (word_of_int k :: 32 word) = k"
  using assms by (simp add: uint_word_of_int mod_pos_pos_trivial)

lemma row_offset_small:
  assumes "0 \<le> y" "y < 2 ^ 32" "uint rs * y < 2 ^ 32"
  shows "row_offset rs y = uint rs * y"
proof -
  have "0 \<le> uint rs * y" using assms by simp
  then show ?thesis
    using assms unfolding row_offset_def
    by (simp add: uint_word_ariths uint_word_of_int mod_pos_pos_trivial)
qed

lemma smod_nonneg: "0 \<le> a \<Longrightarrow> 0 < b \<Longrightarrow> a smod b = a mod (b :: int)"
  by (simp add: signed_modulo_int_def sgn_if)

lemma sdiv_nonneg: "0 \<le> a \<Longrightarrow> 0 < b \<Longrightarrow> a sdiv b = a div (b :: int)"
  by (simp add: signed_divide_int_def sgn_if)

section \<open>cellShade quantises every channel\<close>

lemma nearest_explicit:
  "nearesetNumber v = (if v \<le> 64 then 0 else if v \<le> 191 then 128 else 255)"
proof -
  have u: "uint v < 256" "0 \<le> uint v" using uint_lt2p[of v] by simp_all
  have s1: "uint (v - 128) = (if 128 \<le> uint v then uint v - 128 else uint v + 128)"
    using u by (simp add: uint_sub_if')
  have s2: "uint (128 - v) = (if uint v \<le> 128 then 128 - uint v else 384 - uint v)"
    using u by (simp add: uint_sub_if')
  have s3: "uint (255 - v) = 255 - uint v"
    using u by (simp add: uint_sub_if')
  have s0: "uint (- v) = (if uint v = 0 then 0 else 256 - uint v)"
    using u uint_sub_if'[of 0 v] by simp
  have pos: "uint v = 0 \<or> 0 < uint v"
    using uint_nonnegative[of v] by linarith
  show ?thesis
    unfolding nearesetNumber_def nearest_step_def
    using u pos by (auto simp add: Let_def word_less_def word_le_def s0 s1 s2 s3)
qed

lemma nearest_idem: "nearesetNumber (nearesetNumber v) = nearesetNumber v"
  by (simp add: nearest_explicit)

lemma all_less_3: "(\<forall>j<3::nat. P j) \<longleftrightarrow> P 0 \<and> P 1 \<and> P 2"
proof
  assume r: "P 0 \<and> P 1 \<and> P 2"
  show "\<forall>j<3. P j"
  proof (intro allI impI)
    fix j :: nat assume "j < 3"
    then consider "j = 0" | "j = 1" | "j = 2" by linarith
    then show "P j" using r by cases auto
  qed
qed simp

lemma all_less_2: "(\<forall>j<2::nat. P j) \<longleftrightarrow> P 0 \<and> P 1"
proof
  assume r: "P 0 \<and> P 1"
  show "\<forall>j<2. P j"
  proof (intro allI impI)
    fix j :: nat assume "j < 2"
    then consider "j = 0" | "j = 1" by linarith
    then show "P j" using r by cases auto
  qed
qed simp

lemma nearest_closest_first: "closest_first [0, 128, 255] v (nearesetNumber v)"
proof -
  have u: "uint v < 256" using uint_lt2p[of v] by simp
  have p: "0 \<le> uint v" by simp
  consider "v \<le> 64" | "\<not> v \<le> 64" "v \<le> 191" | "\<not> v \<le> 64" "\<not> v \<le> 191" by blast
  then show ?thesis
  proof cases
    case 1
    then have "\<exists>i<3::nat. i = 0 \<and> nearesetNumber v = [0, 128, 255] ! i \<and>
        (\<forall>j<3. channel_dist v (nearesetNumber v) \<le> channel_dist v ([0, 128, 255] ! j)) \<and>
        (\<forall>j<i. channel_dist v (nearesetNumber v) < channel_dist v ([0, 128, 255] ! j))"
      using u p by (auto simp add: nearest_explicit all_less_3 channel_dist_def word_le_def)
    then show ?thesis unfolding closest_first_def by auto
  next
    case 2
    then have "\<exists>i<3::nat. i = 1 \<and> nearesetNumber v = [0, 128, 255] ! i \<and>
        (\<forall>j<3. channel_dist v (nearesetNumber v) \<le> channel_dist v ([0, 128, 255] ! j)) \<and>
        (\<forall>j<i. channel_dist v (nearesetNumber v) < channel_dist v ([0, 128, 255] ! j))"
      using u p by (auto simp add: nearest_explicit all_less_3 channel_dist_def word_le_def)
    then show ?thesis unfolding closest_first_def by auto
  next
    case 3
    from 3 have "\<exists>i<3::nat. i = 2 \<and> nearesetNumber v = [0, 128, 255] ! i \<and>
        (\<forall>j<3. channel_dist v (nearesetNumber v) \<le> channel_dist v ([0, 128, 255] ! j)) \<and>
        (\<forall>j<i. channel_dist v (nearesetNumber v) < channel_dist v ([0, 128, 255] ! j))"
      using u p by (auto simp add: nearest_explicit all_less_3 all_less_2 channel_dist_def word_le_def)
    then show ?thesis unfolding closest_first_def by auto
  qed
qed

lemma img_height_lt: "img_height b < 2 ^ 31"
  unfolding img_height_def using sint_lt[of "height (bmp_info_header b)"] by simp

lemma row_offset_valid:
  assumes v: "valid_bitmap b" and y: "0 \<le> y" "y < img_height b"
  shows "row_offset (row_stride b) y = uint (row_stride b) * y"
proof -
  have "uint (row_stride b) * y \<le> uint (row_stride b) * img_height b"
    using y by (intro mult_left_mono) simp_all
  also have "\<dots> < 2 ^ 32" using v by (simp add: valid_bitmap_def mult.commute)
  finally have lt: "uint (row_stride b) * y < 2 ^ 32" .
  have ge: "0 \<le> uint (row_stride b) * y" using y by simp
  have y32: "y mod 2 ^ 32 = y" using y img_height_lt[of b] by (simp add: mod_pos_pos_trivial)
  show ?thesis
    unfolding row_offset_def
    using lt ge y32 by (simp add: uint_word_ariths uint_word_of_int mod_pos_pos_trivial)
qed

lemma pix_in_row:
  assumes "0 \<le> x" "x < w" "0 \<le> c" "c < n" "0 \<le> (n::int)"
  shows "x * n + c < w * n"
proof -
  have "(x + 1) * n \<le> w * n" using assms by (intro mult_right_mono) simp_all
  then show ?thesis using assms by (simp add: algebra_simps)
qed

lemma pix_addr_bounds:
  assumes v: "valid_bitmap b" and y: "0 \<le> y" "y < img_height b"
    and x: "0 \<le> x" "x < img_width b" and c: "0 \<le> c" "c < bpp b"
  shows "0 \<le> uint (row_stride b) * y + x * bpp b + c"
    and "uint (row_stride b) * y + x * bpp b + c < int (length (data b))"
proof -
  have n: "0 \<le> bpp b" using c by simp
  show "0 \<le> uint (row_stride b) * y + x * bpp b + c" using y x c n by simp
  have "x * bpp b + c < img_width b * bpp b" using pix_in_row[OF x c n] .
  also have "\<dots> \<le> uint (row_stride b)" using v by (simp add: valid_bitmap_def)
  finally have 1: "uint (row_stride b) * y + x * bpp b + c < uint (row_stride b) * (y + 1)"
    by (simp add: algebra_simps)
  have "uint (row_stride b) * (y + 1) \<le> uint (row_stride b) * img_height b"
    using y by (intro mult_left_mono) simp_all
  also have "\<dots> \<le> int (length (data b))" using v by (simp add: valid_bitmap_def mult.commute)
  finally show "uint (row_stride b) * y + x * bpp b + c < int (length (data b))"
    using 1 by simp
qed

lemma cellShade_channel_step:
  assumes v: "valid_bitmap b" and y: "0 \<le> y" "y < img_height b"
    and x: "0 \<le> x" "x < img_width b" and c: "0 \<le> c" "c < bpp b"
    and inv: "shaded_upto b y x c d"
  shows "\<exists>d'. cellShade_channel (uint (row_stride b) * y + x * bpp b) (word_of_int c) d
             = Some (Ok d') \<and> shaded_upto b y x (c + 1) d'"
proof -
  let ?a = "uint (row_stride b) * y + x * bpp b + c"
  have c8: "uint (word_of_int c :: 8 word) = c"
    using c v by (auto simp: valid_bitmap_def uint_word_of_int mod_pos_pos_trivial)
  have b0: "0 \<le> ?a" and b1: "?a < int (length (data b))"
    using pix_addr_bounds[OF v y x c] by simp_all
  have len: "length d = length (data b)" using inv by (simp add: shaded_upto_def)
  have na: "nat ?a = pix_addr b y x c" by (simp add: pix_addr_def)
  have nl: "pix_addr b y x c < length (data b)" using b0 b1 na by linarith
  let ?d' = "d[pix_addr b y x c := nearesetNumber (d ! pix_addr b y x c)]"
  have run: "cellShade_channel (uint (row_stride b) * y + x * bpp b) (word_of_int c) d
      = Some (Ok ?d')"
    using b0 b1 len na by (simp add: cellShade_channel_def c8 load_def store_def)
  have old: "d ! pix_addr b y x c = data b ! pix_addr b y x c
      \<or> d ! pix_addr b y x c = nearesetNumber (data b ! pix_addr b y x c)"
    using inv nl by (simp add: shaded_upto_def)
  then have new: "nearesetNumber (d ! pix_addr b y x c)
      = nearesetNumber (data b ! pix_addr b y x c)"
    by (auto simp: nearest_idem)
  have "shaded_upto b y x (c + 1) ?d'"
    unfolding shaded_upto_def
  proof (intro conjI allI impI)
    show "length ?d' = length (data b)" using len by simp
  next
    fix a assume "a < length (data b)"
    then show "?d' ! a = data b ! a \<or> ?d' ! a = nearesetNumber (data b ! a)"
      using inv new len by (cases "a = pix_addr b y x c") (auto simp: shaded_upto_def)
  next
    fix y' x' c'
    assume h: "0 \<le> y' \<and> 0 \<le> x' \<and> x' < img_width b \<and> 0 \<le> c' \<and> c' < bpp b \<and>
         (y' < y \<or> y' = y \<and> (x' < x \<or> x' = x \<and> c' < c + 1))"
    show "?d' ! pix_addr b y' x' c' = nearesetNumber (data b ! pix_addr b y' x' c')"
    proof (cases "pix_addr b y' x' c' = pix_addr b y x c")
      case True
      then show ?thesis using new nl len by simp
    next
      case False
      then have ne: "\<not> (y' = y \<and> x' = x \<and> c' = c)" by auto
      with h have "y' < y \<or> y' = y \<and> (x' < x \<or> x' = x \<and> c' < c)" by auto
      with h inv have "d ! pix_addr b y' x' c' = nearesetNumber (data b ! pix_addr b y' x' c')"
        unfolding shaded_upto_def by blast
      then show ?thesis using False by simp
    qed
  qed
  with run show ?thesis by blast
qed

lemma shaded_upto_next_pixel: "shaded_upto b y x (bpp b) d' \<Longrightarrow> shaded_upto b y (x + 1) 0 d'"
  unfolding shaded_upto_def
  apply (intro conjI allI impI)
    apply blast
   apply blast
  apply (elim conjE)
  subgoal premises p for y' x' c'
  proof -
    have "y' < y \<or> y' = y \<and> (x' < x \<or> x' = x \<and> c' < bpp b)" using p by linarith
    then show ?thesis using p by blast
  qed
  done

lemma shaded_upto_next_row: "shaded_upto b y (img_width b) 0 d' \<Longrightarrow> shaded_upto b (y + 1) 0 0 d'"
  unfolding shaded_upto_def
  apply (intro conjI allI impI)
    apply blast
   apply blast
  apply (elim conjE)
  subgoal premises p for y' x' c'
  proof -
    have "y' < y \<or> y' = y \<and> (x' < img_width b \<or> x' = img_width b \<and> c' < 0)" using p by linarith
    then show ?thesis using p by blast
  qed
  done

lemma cellShade_pixel_step:
  assumes v: "valid_bitmap b" and y: "0 \<le> y" "y < img_height b"
    and x: "0 \<le> x" "x < img_width b"
    and inv: "shaded_upto b y x 0 d"
  shows "\<exists>d'. cellShade_pixel b (row_offset (row_stride b) y) x d = Some (Ok d')
           \<and> shaded_upto b y (x + 1) 0 d'"
proof -
  have n: "0 \<le> bpp b" "bpp b < 2 ^ LENGTH(8)" using v by (auto simp: valid_bitmap_def)
  have "x * bpp b \<le> img_width b * bpp b" using x n by (intro mult_right_mono) simp_all
  then have ov: "x * bpp b < 2 ^ 31" "- (2 ^ 31) \<le> x * bpp b"
    using v x n by (auto simp: valid_bitmap_def intro: order_trans[of _ 0])
  have "\<exists>d'. while_loop (\<lambda>ch :: 8 word. uint ch < bpp b) (\<lambda>ch. ch + 1)
         (cellShade_channel (uint (row_stride b) * y + x * bpp b)) 0 d = Some (Ok d')
         \<and> shaded_upto b y x (bpp b) d'"
    by (rule for_word_total[where I = "\<lambda>c. shaded_upto b y x c", OF n inv])
       (rule cellShade_channel_step[OF v y x])
  then obtain d' where r: "while_loop (\<lambda>ch :: 8 word. uint ch < bpp b) (\<lambda>ch. ch + 1)
         (cellShade_channel (uint (row_stride b) * y + x * bpp b)) 0 d = Some (Ok d')"
         "shaded_upto b y x (bpp b) d'" by blast
  have "shaded_upto b y (x + 1) 0 d'"
    using r(2) by (rule shaded_upto_next_pixel)
  with r(1) ov show ?thesis
    by (simp add: cellShade_pixel_def ck_int_def row_offset_valid[OF v y])
qed

lemma cellShade_row_step:
  assumes v: "valid_bitmap b" and y: "0 \<le> y" "y < img_height b"
    and inv: "shaded_upto b y 0 0 d"
  shows "\<exists>d'. cellShade_row b y d = Some (Ok d') \<and> shaded_upto b (y + 1) 0 0 d'"
proof -
  have w: "0 \<le> img_width b" using v by (simp add: valid_bitmap_def)
  have "\<exists>d'. while_loop (\<lambda>x. x < img_width b) (\<lambda>x. x + 1)
         (cellShade_pixel b (row_offset (row_stride b) y)) 0 d = Some (Ok d')
         \<and> shaded_upto b y (img_width b) 0 d'"
    by (rule for_int_total[where I = "\<lambda>x. shaded_upto b y x 0", OF w inv])
       (rule cellShade_pixel_step[OF v y])
  then obtain d' where r: "cellShade_row b y d = Some (Ok d')"
    "shaded_upto b y (img_width b) 0 d'" by (auto simp: cellShade_row_def)
  have "shaded_upto b (y + 1) 0 0 d'"
    using r(2) by (rule shaded_upto_next_row)
  with r(1) show ?thesis by blast
qed

text \<open>
  On a bitmap that meets the contract of the filters, \<open>cellShade\<close> returns, and every channel
  of every pixel of \<open>[0, width) \<times> [0, height)\<close> then holds the value of \<open>{0, 128, 255}\<close>
  closest to the old value, the first one in the order 0, 128, 255 where two are equally
  close; so 64 becomes 0.
\<close>

lemma cellShade_quantizes:
  assumes v: "valid_bitmap b"
  shows "\<exists>b'. cellShade b = Some (Ok b') \<and>
           length (data b') = length (data b) \<and>
           (\<forall>y x ch. 0 \<le> y \<and> y < img_height b \<and> 0 \<le> x \<and> x < img_width b \<and>
                      0 \<le> ch \<and> ch < bpp b \<longrightarrow>
              closest_first [0, 128, 255] (data b ! pix_addr b y x ch)
                (data b' ! pix_addr b y x ch)) \<and>
           nearesetNumber 64 = 0"
proof -
  have h: "0 \<le> img_height b" using v by (simp add: valid_bitmap_def)
  have i0: "shaded_upto b 0 0 0 (data b)" by (auto simp: shaded_upto_def)
  have "\<exists>d'. while_loop (\<lambda>y. y < img_height b) (\<lambda>y. y + 1) (cellShade_row b) 0 (data b)
          = Some (Ok d') \<and> shaded_upto b (img_height b) 0 0 d'"
    by (rule for_int_total[where I = "\<lambda>y. shaded_upto b y 0 0", OF h i0])
       (rule cellShade_row_step[OF v])
  then obtain d' where r: "while_loop (\<lambda>y. y < img_height b) (\<lambda>y. y + 1) (cellShade_row b) 0
      (data b) = Some (Ok d')" "shaded_upto b (img_height b) 0 0 d'" by blast
  have run: "cellShade b = Some (Ok (b\<lparr>data := d'\<rparr>))" using r(1) by (simp add: cellShade_def)
  have "\<forall>y x ch. 0 \<le> y \<and> y < img_height b \<and> 0 \<le> x \<and> x < img_width b \<and>
                      0 \<le> ch \<and> ch < bpp b \<longrightarrow>
              closest_first [0, 128, 255] (data b ! pix_addr b y x ch) (d' ! pix_addr b y x ch)"
  proof (intro allI impI)
    fix y x ch
    assume a: "0 \<le> y \<and> y < img_height b \<and> 0 \<le> x \<and> x < img_width b \<and> 0 \<le> ch \<and> ch < bpp b"
    with r(2) have "d' ! pix_addr b y x ch = nearesetNumber (data b ! pix_addr b y x ch)"
      unfolding shaded_upto_def by blast
    then show "closest_first [0, 128, 255] (data b ! pix_addr b y x ch) (d' ! pix_addr b y x ch)"
      using nearest_closest_first by simp
  qed
  moreover have "length d' = length (data b)" using r(2) by (simp add: shaded_upto_def)
  moreover have "nearesetNumber 64 = 0" by (simp add: nearest_explicit)
  ultimately show ?thesis using run by simp
qed

text \<open>
  Claim C6.  The claim is that \<open>cellShade\<close> replaces every channel of every pixel of every
  bitmap by the closest of 0, 128 and 255.  \<open>operator>>\<close> assigns \<open>row_stride\<close> only where the
  width is not a multiple of 4; for the 4 by 2 image it returns \<open>sample_4x2\<close> with
  \<open>row_stride = 0\<close>, which does not meet the contract of the filters.  \<open>cellShade\<close> then
  takes every row to start at byte 0: it quantises the 12 bytes of row 0 twice and leaves
  the 12 bytes of row 1 as they are, 22 to 33, where the claim gives 0 for each.
\<close>

theorem cellShade_skips_rows_of_decoded_image:
  "decode (istream_open stream_4x2) Bitmap_init
     = Some (Ok (Returned sample_4x2 \<lparr>content = stream_4x2, gpos = 78, failed = True\<rparr>)) \<and>
   cellShade sample_4x2 = Some (Ok (sample_4x2\<lparr>data :=
      [0, 0, 0, 0, 0, 0, 0, 0, 0, 0, 0, 0,
       22, 23, 24, 25, 26, 27, 28, 29, 30, 31, 32, 33] @ replicate 192 0\<rparr>)) \<and>
   img_width sample_4x2 * bpp sample_4x2 = 12 \<and>
   map nearesetNumber [22, 23, 24, 25, 26, 27, 28, 29, 30, 31, 32, 33]
     = [0, 0, 0, 0, 0, 0, 0, 0, 0, 0, 0, 0]"
  by code_simp

section \<open>grayscale averages the channels\<close>

lemma pix_addr_inj:
  assumes v: "valid_bitmap b"
    and y: "0 \<le> y" "y < img_height b" and x: "0 \<le> x" "x < img_width b"
    and c: "0 \<le> c" "c < bpp b"
    and y': "0 \<le> y'" "y' < img_height b" and x': "0 \<le> x'" "x' < img_width b"
    and c': "0 \<le> c'" "c' < bpp b"
    and eq: "pix_addr b y x c = pix_addr b y' x' c'"
  shows "y = y' \<and> x = x' \<and> c = c'"
proof -
  let ?rs = "uint (row_stride b)" and ?n = "bpp b" and ?w = "img_width b"
  have n: "0 \<le> ?n" using c by simp
  have r: "x * ?n + c < ?rs" "x' * ?n + c' < ?rs"
    using pix_in_row[OF x c n] pix_in_row[OF x' c' n] v by (auto simp: valid_bitmap_def)
  have r0: "0 \<le> x * ?n + c" "0 \<le> x' * ?n + c'" using x x' c c' n by simp_all
  have e: "?rs * y + x * ?n + c = ?rs * y' + x' * ?n + c'"
    using eq y x c y' x' c' n unfolding pix_addr_def by (simp add: nat_eq_iff)
  have yy: "y = y'"
  proof (rule ccontr)
    assume "y \<noteq> y'"
    then consider "y + 1 \<le> y'" | "y' + 1 \<le> y" by linarith
    then show False
    proof cases
      case 1
      then have "?rs * (y + 1) \<le> ?rs * y'" by (intro mult_left_mono) simp_all
      then show False using e r r0 by (simp add: algebra_simps)
    next
      case 2
      then have "?rs * (y' + 1) \<le> ?rs * y" by (intro mult_left_mono) simp_all
      then show False using e r r0 by (simp add: algebra_simps)
    qed
  qed
  have e2: "x * ?n + c = x' * ?n + c'" using e yy by simp
  have xx: "x = x'"
  proof (rule ccontr)
    assume "x \<noteq> x'"
    then consider "x + 1 \<le> x'" | "x' + 1 \<le> x" by linarith
    then show False
    proof cases
      case 1
      then have "(x + 1) * ?n \<le> x' * ?n" using n by (intro mult_right_mono) simp_all
      then show False using e2 c c' by (simp add: algebra_simps)
    next
      case 2
      then have "(x' + 1) * ?n \<le> x * ?n" using n by (intro mult_right_mono) simp_all
      then show False using e2 c c' by (simp add: algebra_simps)
    qed
  qed
  show ?thesis using yy xx e2 by simp
qed

lemma gray_upto_step:
  assumes v: "valid_bitmap b" and y: "0 \<le> y" "y < img_height b"
    and x: "0 \<le> x" "x < img_width b"
    and inv: "gray_upto b y x d"
    and len: "length d' = length d"
    and new: "\<And>c. 0 \<le> c \<Longrightarrow> c < bpp b \<Longrightarrow> uint (d' ! pix_addr b y x c) = channel_average b y x"
    and old: "\<And>a. (\<And>c. 0 \<le> c \<Longrightarrow> c < bpp b \<Longrightarrow> a \<noteq> pix_addr b y x c) \<Longrightarrow> d' ! a = d ! a"
  shows "gray_upto b y (x + 1) d'"
  unfolding gray_upto_def
proof (intro conjI allI impI)
  show "length d' = length (data b)" using len inv by (simp add: gray_upto_def)
next
  fix y' x' c
  assume r: "0 \<le> y' \<and> y' < img_height b \<and> 0 \<le> x' \<and> x' < img_width b \<and> 0 \<le> c \<and> c < bpp b"
  show "if y' < y \<or> y' = y \<and> x' < x + 1
        then uint (d' ! pix_addr b y' x' c) = channel_average b y' x'
        else d' ! pix_addr b y' x' c = data b ! pix_addr b y' x' c"
  proof (cases "y' = y \<and> x' = x")
    case True
    then show ?thesis using new r by simp
  next
    case False
    have "d' ! pix_addr b y' x' c = d ! pix_addr b y' x' c"
    proof (rule old)
      fix c' assume c': "0 \<le> c'" "c' < bpp b"
      show "pix_addr b y' x' c \<noteq> pix_addr b y x c'"
      proof
        assume "pix_addr b y' x' c = pix_addr b y x c'"
        from pix_addr_inj[OF v _ _ _ _ _ _ y x c' this] r have "y' = y \<and> x' = x" by blast
        with False show False by blast
      qed
    qed
    moreover have "if y' < y \<or> y' = y \<and> x' < x
        then uint (d ! pix_addr b y' x' c) = channel_average b y' x'
        else d ! pix_addr b y' x' c = data b ! pix_addr b y' x' c"
      using inv r unfolding gray_upto_def by blast
    moreover have "(y' < y \<or> y' = y \<and> x' < x + 1) = (y' < y \<or> y' = y \<and> x' < x)"
      using False by auto
    ultimately show ?thesis by simp
  qed
qed

lemma gray_store_run:
  assumes "0 \<le> p" "p + 2 < int (length d)"
  shows "gray_store d p g = Some (Ok (d[nat (p + 2) := ucast g, nat (p + 1) := ucast g,
            nat p := ucast g]))"
  using assms by (simp add: gray_store_def store_def nat_add_distrib)

lemma ucast_gray:
  assumes "0 \<le> s" "s < 256"
  shows "uint (ucast (word_of_int s :: 16 word) :: 8 word) = s"
proof -
  have "uint (word_of_int s :: 16 word) = s"
    using assms by (simp add: uint_word_of_int mod_pos_pos_trivial)
  then show ?thesis using assms
    by (simp add: unsigned_ucast_eq take_bit_eq_mod mod_pos_pos_trivial)
qed

lemma imageType_eq_3: "(imageType b = 3) = (bpp b = 3)"
  unfolding bpp_def by (simp add: word_uint_eq_iff)

lemma byte_lt: "uint (w :: 8 word) < 256"
  using uint_lt2p[of w] by simp

lemma grayscale_at_3:
  assumes "bpp b = 3" "0 \<le> p" "p + 2 < int (length d)"
  shows "grayscale_at b p d = Some (Ok (let g = ucast (word_of_int
            ((uint (d ! nat p) + uint (d ! nat (p + 1)) + uint (d ! nat (p + 2))) div 3) :: 16 word)
          in d[nat (p + 2) := g, nat (p + 1) := g, nat p := g]))"
  using assms
  by (simp add: grayscale_at_def Let_def load_def imageType_eq_3 gray_store_run)

lemma grayscale_at_4:
  assumes "bpp b = 4" "0 \<le> p" "p + 3 < int (length d)"
  shows "grayscale_at b p d = Some (Ok (let g = ucast (word_of_int
            ((uint (d ! nat p) + uint (d ! nat (p + 1)) + uint (d ! nat (p + 2))
              + uint (d ! nat (p + 3))) div 4) :: 16 word)
          in d[nat (p + 3) := g, nat (p + 2) := g, nat (p + 1) := g, nat p := g]))"
  using assms
  by (simp add: grayscale_at_def Let_def load_def store_def imageType_eq_3 gray_store_run)

lemma grayscale_pixel_step:
  assumes v: "valid_bitmap b" and y: "0 \<le> y" "y < img_height b"
    and x: "0 \<le> x" "x < img_width b"
    and inv: "gray_upto b y x d"
  shows "\<exists>d'. grayscale_pixel b (row_offset (row_stride b) y) x d = Some (Ok d')
           \<and> gray_upto b y (x + 1) d'"
proof -
  let ?n = "bpp b"
  define p where "p = uint (row_stride b) * y + x * ?n"
  have n34: "?n = 3 \<or> ?n = 4" using v by (simp add: valid_bitmap_def)
  have n: "0 \<le> ?n" using n34 by auto
  have "x * ?n \<le> img_width b * ?n" using x n by (intro mult_right_mono) simp_all
  then have ov: "x * ?n < 2 ^ 31" "- (2 ^ 31) \<le> x * ?n"
    using v x n by (auto simp: valid_bitmap_def intro: order_trans[of _ 0])
  have len: "length d = length (data b)" using inv by (simp add: gray_upto_def)
  have p0: "0 \<le> p" using y x n by (simp add: p_def)
  have pa: "pix_addr b y x c = nat (p + c)" for c by (simp add: pix_addr_def p_def)
  have bnd: "p + c < int (length d)" if "0 \<le> c" "c < ?n" for c
    using pix_addr_bounds(2)[OF v y x that] len by (simp add: p_def)
  have orig: "d ! nat (p + c) = data b ! pix_addr b y x c" if "0 \<le> c" "c < ?n" for c
    using inv that y x unfolding gray_upto_def pa[symmetric] by (auto split: if_splits)
  from n34 show ?thesis
  proof
    assume n3: "?n = 3"
    define s where "s = uint (d ! nat p) + uint (d ! nat (p + 1)) + uint (d ! nat (p + 2))"
    define g :: "8 word" where "g = ucast (word_of_int (s div 3) :: 16 word)"
    have "0 \<le> s" "s < 768"
      using byte_lt[of "d ! nat p"] byte_lt[of "d ! nat (p + 1)"] byte_lt[of "d ! nat (p + 2)"]
      by (simp_all add: s_def)
    then have s: "0 \<le> s div 3" "s div 3 < 256" by presburger+
    have ug: "uint g = s div 3" unfolding g_def by (rule ucast_gray[OF s])
    have avg: "channel_average b y x = s div 3"
      using orig[of 0] orig[of 1] orig[of 2] n3 by (simp add: channel_average_def s_def)
    let ?d' = "d[nat (p + 2) := g, nat (p + 1) := g, nat p := g]"
    have b2: "p + 2 < int (length d)" using bnd[of 2] n3 by simp
    have run: "grayscale_pixel b (row_offset (row_stride b) y) x d = Some (Ok ?d')"
      using ov grayscale_at_3[OF n3 p0 b2]
      by (simp add: grayscale_pixel_def ck_int_def row_offset_valid[OF v y] p_def[symmetric]
          s_def g_def Let_def)
    have "gray_upto b y (x + 1) ?d'"
    proof (rule gray_upto_step[OF v y x inv])
      show "length ?d' = length d" by simp
    next
      fix c assume "0 \<le> c" "c < ?n"
      then have "c = 0 \<or> c = 1 \<or> c = 2" using n3 by auto
      then have "?d' ! pix_addr b y x c = g"
        using p0 b2 by (auto simp: pa nat_add_distrib)
      then show "uint (?d' ! pix_addr b y x c) = channel_average b y x" using ug avg by simp
    next
      fix a assume h: "\<And>c. 0 \<le> c \<Longrightarrow> c < ?n \<Longrightarrow> a \<noteq> pix_addr b y x c"
      have "a \<noteq> nat p" "a \<noteq> nat (p + 1)" "a \<noteq> nat (p + 2)"
        using h[of 0] h[of 1] h[of 2] n3 by (simp_all add: pa)
      then show "?d' ! a = d ! a" by simp
    qed
    with run show ?thesis by blast
  next
    assume n4: "?n = 4"
    define s where "s = uint (d ! nat p) + uint (d ! nat (p + 1)) + uint (d ! nat (p + 2))
        + uint (d ! nat (p + 3))"
    define g :: "8 word" where "g = ucast (word_of_int (s div 4) :: 16 word)"
    have "0 \<le> s" "s < 1024"
      using byte_lt[of "d ! nat p"] byte_lt[of "d ! nat (p + 1)"] byte_lt[of "d ! nat (p + 2)"]
        byte_lt[of "d ! nat (p + 3)"]
      by (simp_all add: s_def)
    then have s: "0 \<le> s div 4" "s div 4 < 256" by presburger+
    have ug: "uint g = s div 4" unfolding g_def by (rule ucast_gray[OF s])
    have avg: "channel_average b y x = s div 4"
      using orig[of 0] orig[of 1] orig[of 2] orig[of 3] n4
      by (simp add: channel_average_def s_def)
    let ?d' = "d[nat (p + 3) := g, nat (p + 2) := g, nat (p + 1) := g, nat p := g]"
    have b3: "p + 3 < int (length d)" using bnd[of 3] n4 by simp
    have run: "grayscale_pixel b (row_offset (row_stride b) y) x d = Some (Ok ?d')"
      using ov grayscale_at_4[OF n4 p0 b3]
      by (simp add: grayscale_pixel_def ck_int_def row_offset_valid[OF v y] p_def[symmetric]
          s_def g_def Let_def)
    have "gray_upto b y (x + 1) ?d'"
    proof (rule gray_upto_step[OF v y x inv])
      show "length ?d' = length d" by simp
    next
      fix c assume "0 \<le> c" "c < ?n"
      then have "c = 0 \<or> c = 1 \<or> c = 2 \<or> c = 3" using n4 by auto
      then have "?d' ! pix_addr b y x c = g"
        using p0 b3 by (auto simp: pa nat_add_distrib)
      then show "uint (?d' ! pix_addr b y x c) = channel_average b y x" using ug avg by simp
    next
      fix a assume h: "\<And>c. 0 \<le> c \<Longrightarrow> c < ?n \<Longrightarrow> a \<noteq> pix_addr b y x c"
      have "a \<noteq> nat p" "a \<noteq> nat (p + 1)" "a \<noteq> nat (p + 2)" "a \<noteq> nat (p + 3)"
        using h[of 0] h[of 1] h[of 2] h[of 3] n4 by (simp_all add: pa)
      then show "?d' ! a = d ! a" by simp
    qed
    with run show ?thesis by blast
  qed
qed

lemma gray_upto_next_row: "gray_upto b y (img_width b) d \<Longrightarrow> gray_upto b (y + 1) 0 d"
  unfolding gray_upto_def
  apply (intro conjI allI impI)
   apply blast
  apply (elim conjE)
  subgoal premises p for y' x' c
  proof -
    have "(y' < y + 1 \<or> y' = y + 1 \<and> x' < 0) = (y' < y \<or> y' = y \<and> x' < img_width b)"
      using p by linarith
    then show ?thesis using p by presburger
  qed
  done

lemma grayscale_row_step:
  assumes v: "valid_bitmap b" and y: "0 \<le> y" "y < img_height b"
    and inv: "gray_upto b y 0 d"
  shows "\<exists>d'. grayscale_row b y d = Some (Ok d') \<and> gray_upto b (y + 1) 0 d'"
proof -
  have w: "0 \<le> img_width b" using v by (simp add: valid_bitmap_def)
  have "\<exists>d'. while_loop (\<lambda>x. x < img_width b) (\<lambda>x. x + 1)
         (grayscale_pixel b (row_offset (row_stride b) y)) 0 d = Some (Ok d')
         \<and> gray_upto b y (img_width b) d'"
    by (rule for_int_total[where I = "\<lambda>x. gray_upto b y x", OF w inv])
       (rule grayscale_pixel_step[OF v y])
  then obtain d' where r: "grayscale_row b y d = Some (Ok d')"
    "gray_upto b y (img_width b) d'" by (auto simp: grayscale_row_def)
  from r(2) have "gray_upto b (y + 1) 0 d'" by (rule gray_upto_next_row)
  with r(1) show ?thesis by blast
qed

text \<open>
  On a bitmap that meets the contract of the filters, \<open>grayscale\<close> returns, and every channel
  of every pixel then holds the integer average of the pixel's old channels: the sum of B,
  G, R divided by 3 at three bytes per pixel, the sum of B, G, R, A divided by 4 at four
  bytes per pixel, where the alpha byte is overwritten as well.  So R, G and B are equal.
\<close>

lemma grayscale_averages:
  assumes v: "valid_bitmap b"
  shows "\<exists>b'. grayscale b = Some (Ok b') \<and>
           length (data b') = length (data b) \<and>
           (\<forall>y x c. 0 \<le> y \<and> y < img_height b \<and> 0 \<le> x \<and> x < img_width b \<and>
                     0 \<le> c \<and> c < bpp b \<longrightarrow>
              uint (data b' ! pix_addr b y x c) = channel_average b y x)"
proof -
  have h: "0 \<le> img_height b" using v by (simp add: valid_bitmap_def)
  have i0: "gray_upto b 0 0 (data b)" by (auto simp: gray_upto_def)
  have "\<exists>d'. while_loop (\<lambda>y. y < img_height b) (\<lambda>y. y + 1) (grayscale_row b) 0 (data b)
          = Some (Ok d') \<and> gray_upto b (img_height b) 0 d'"
    by (rule for_int_total[where I = "\<lambda>y. gray_upto b y 0", OF h i0])
       (rule grayscale_row_step[OF v])
  then obtain d' where r: "while_loop (\<lambda>y. y < img_height b) (\<lambda>y. y + 1) (grayscale_row b) 0
      (data b) = Some (Ok d')" "gray_upto b (img_height b) 0 d'" by blast
  have run: "grayscale b = Some (Ok (b\<lparr>data := d'\<rparr>))" using r(1) by (simp add: grayscale_def)
  have "\<forall>y x c. 0 \<le> y \<and> y < img_height b \<and> 0 \<le> x \<and> x < img_width b \<and>
                     0 \<le> c \<and> c < bpp b \<longrightarrow>
              uint (d' ! pix_addr b y x c) = channel_average b y x"
    using r(2) unfolding gray_upto_def by (auto split: if_splits)
  moreover have "length d' = length (data b)" using r(2) by (simp add: gray_upto_def)
  ultimately show ?thesis using run by simp
qed

text \<open>
  Claim C7.  The claim is that after \<open>grayscale\<close> every pixel of every bitmap has R, G and B
  equal to the integer average of its old channels.  \<open>operator>>\<close> assigns \<open>row_stride\<close> only
  where the width is not a multiple of 4; for the 4 by 2 image it returns \<open>sample_4x2\<close> with
  \<open>row_stride = 0\<close>, which does not meet the contract of the filters.  \<open>grayscale\<close> then
  takes every row to start at byte 0: it averages the four pixels of row 0 twice and leaves
  row 1 as it is: a row has 12 bytes, so the first pixel of row 1 is bytes 12 to 14 and
  keeps 22, 23, 24, where the claim gives 23 for each.
\<close>

theorem grayscale_skips_rows_of_decoded_image:
  "decode (istream_open stream_4x2) Bitmap_init
     = Some (Ok (Returned sample_4x2 \<lparr>content = stream_4x2, gpos = 78, failed = True\<rparr>)) \<and>
   grayscale sample_4x2 = Some (Ok (sample_4x2\<lparr>data :=
      [11, 11, 11, 14, 14, 14, 17, 17, 17, 20, 20, 20,
       22, 23, 24, 25, 26, 27, 28, 29, 30, 31, 32, 33] @ replicate 192 0\<rparr>)) \<and>
   img_width sample_4x2 * bpp sample_4x2 = 12"
  by code_simp

section \<open>blur on a white image\<close>

lemma sample_read: "k < 108 \<Longrightarrow> data sample_white_6x6 ! k = 255"
  by (simp add: sample_white_6x6_def nth_append)

lemma blur_sample_white:
  assumes "0 \<le> xOff" "xOff < 5" "0 \<le> yOff" "yOff < 5"
  shows "blur_sample sample_white_6x6 (data sample_white_6x6) 2 2 xOff yOff fv = 
     (let w = blur_filter ! nat yOff ! nat xOff in Some (Ok (blur_add (blur_add (blur_add fv 0 255 w) 1 255 w) 2 255 w)))"
proof -
  have "xOff = 0 \<or> xOff = 1 \<or> xOff = 2 \<or> xOff = 3 \<or> xOff = 4" using assms by auto
  moreover have "yOff = 0 \<or> yOff = 1 \<or> yOff = 2 \<or> yOff = 3 \<or> yOff = 4" using assms by auto
  ultimately show ?thesis
    by (elim disjE; simp add: blur_sample_def table_get_def blur_offset_def blur_filter_def Let_def load_def sample_white_6x6_def nth_append)
qed

lemma blur_acc_white:
  "blur_accumulate sample_white_6x6 (data sample_white_6x6) 2 2
     = Some (Ok [65280, 65280, 65280, 0])"
  by (simp add: blur_accumulate_def while_loop.simps blur_sample_white blur_filter_def blur_add_def Let_def)

lemma blur_white:
  "blur sample_white_6x6 =
     Some (Ok (sample_white_6x6\<lparr>data := (data sample_white_6x6)[42 := 0, 43 := 0, 44 := 0]\<rparr>))"
proof -
  have d: "length (data sample_white_6x6) = 972" by (simp add: sample_white_6x6_def)
  have h: "img_height sample_white_6x6 = 6" "img_width sample_white_6x6 = 6"
    "bpp sample_white_6x6 = 3" "row_stride sample_white_6x6 = 18"
    by (simp_all add: sample_white_6x6_def img_height_def img_width_def bpp_def
        BMPInfoHeader_init_def)
  have z: "(256 :: 8 word) = 0" by (simp add: word_eq_iff_unsigned[where ?'a = nat] unsigned_numeral take_bit_eq_mod)
  have px: "blur_pixel sample_white_6x6 2 2 (data sample_white_6x6)
      = Some (Ok ((data sample_white_6x6)[42 := 0, 43 := 0, 44 := 0]))"
    by (simp add: blur_pixel_def h ck_int_def row_offset_def Let_def blur_acc_white
        while_loop.simps blur_write_def table_get_def store_def d z)
  show ?thesis
    by (simp add: blur_def h ck_int_def while_loop.simps px)
qed

text \<open>
  Claim C5.  The claim is that each interior pixel becomes the weighted sum of its
  neighbourhood divided by 256.  The code divides by 255.  On the white 6 by 6 image the only
  interior pixel is (2, 2); every weighted sum is \<open>255 * 256\<close>, the claim gives 255 for each
  channel, and \<open>blur\<close> stores \<open>256 mod 256 = 0\<close>.
\<close>

theorem blur_divides_by_255:
  "blur sample_white_6x6 =
     Some (Ok (sample_white_6x6\<lparr>data := (data sample_white_6x6)[42 := 0, 43 := 0, 44 := 0]\<rparr>)) \<and>
   blur_accumulate sample_white_6x6 (data sample_white_6x6) 2 2
     = Some (Ok [65280, 65280, 65280, 0]) \<and>
   pix_addr sample_white_6x6 2 2 0 = 42 \<and>
   blur_expected sample_white_6x6 2 2 0 = 255 \<and>
   ((data sample_white_6x6)[42 := 0, 43 := 0, 44 := 0]) ! 42 = 0"
proof -
  have e: "blur_expected sample_white_6x6 2 2 0 = 255"
    by (simp add: blur_expected_def gauss_weight_def pix_addr_def sample_white_6x6_def bpp_def
        nth_append)
  have a: "pix_addr sample_white_6x6 2 2 0 = 42"
    by (simp add: pix_addr_def sample_white_6x6_def bpp_def)
  have z: "((data sample_white_6x6)[42 := 0, 43 := 0, 44 := 0]) ! 42 = 0"
    by (simp add: sample_white_6x6_def)
  show ?thesis by (intro conjI blur_white blur_acc_white a e z)
qed

section \<open>pixelate on a 17 by 17 image\<close>

lemma sample_black_fields: "img_height sample_black_17x17 = 17" "img_width sample_black_17x17 = 17"
    "bpp sample_black_17x17 = 3" "row_stride sample_black_17x17 = 51" "imageType sample_black_17x17 = 3"
    "data sample_black_17x17 = replicate 7803 0"
    by (simp_all add: sample_black_17x17_def img_height_def img_width_def bpp_def
        BMPInfoHeader_init_def)

lemma sum_black: "pixelate_sum sample_black_17x17 (replicate 7803 0) 8 8 = Some (Ok [0,0,0,0])"
  by (simp add: pixelate_sum_def pixelate_sample_def sample_black_fields while_loop.simps table_get_def pixelate_offset_def
     ck_int_def load_def row_offset_def value_add_def Let_def)

lemma fill_black:
  "pixelate_fill sample_black_17x17 [0, 0, 0, 0] 8 8 (replicate 7803 0)
     = Some (Fault (Table_out_of_range 16))"
  by (simp add: pixelate_fill_def pixelate_store_def sample_black_fields while_loop.simps table_get_def
      pixelate_offset_def ck_int_def store_def row_offset_def Let_def)

text \<open>
  Claim C3.  The claim is that every filter keeps every index inside the array it accesses,
  the 16 entries of the offset table of \<open>pixelate\<close> included.  The loop of \<open>pixelate\<close> that
  writes a block runs \<open>oX\<close> up to 16 and reads \<open>offset[oX]\<close>: on the black 17 by 17 image the
  first block reads \<open>offset[16]\<close>, past the end of the table.
\<close>

theorem pixelate_reads_past_offset_table:
  "pixelate sample_black_17x17 = Some (Fault (Table_out_of_range 16))"
  by (simp add: pixelate_def pixelate_block_def sample_black_fields ck_int_def while_loop.simps sum_black fill_black)

section \<open>flipv on a wide image\<close>

lemma sample_wide_fields:
  "img_height sample_wide = 2" "img_width sample_wide = 21846" "bpp sample_wide = 3"
  "row_stride sample_wide = 65538" "imageType sample_wide = 3"
  "length (data sample_wide) = 1179684"
  by (simp_all add: sample_wide_def img_height_def img_width_def bpp_def BMPInfoHeader_init_def)

lemma copy_pixel_wide:
  assumes len: "length d = 1179684"
  shows "\<exists>d'. copy_pixel sample_wide (data sample_wide) (0 + uint (x :: 16 word))
            (65538 + uint x) d = Some (Ok d') \<and> length d' = 1179684"
proof -
  have x: "0 \<le> uint x" "uint x < 65536" using uint_lt2p[of x] by simp_all
  show ?thesis
    using x len
    by (simp add: copy_pixel_def load_def store_def sample_wide_fields)
qed

lemma flipv_row_wide:
  assumes len: "length d = 1179684"
  shows "flipv_row sample_wide 0 d = None"
proof -
  have "while_loop (\<lambda>x :: 16 word. uint x < 65538) (\<lambda>x. x + 3)
          (\<lambda>x. copy_pixel sample_wide (data sample_wide) (0 + uint x) (65538 + uint x)) 0 d = None"
  proof (rule while_loop_diverges[where I = "\<lambda>x d. length d = 1179684"])
    show "length d = 1179684" by (rule len)
  next
    fix x :: "16 word" and d :: "8 word list"
    assume l: "length d = 1179684"
    have "uint x < 65538" using uint_lt2p[of x] by simp
    with copy_pixel_wide[OF l, of x]
    show "uint x < 65538 \<and>
        (copy_pixel sample_wide (data sample_wide) (0 + uint x) (65538 + uint x) d = None \<or>
         (\<exists>s'. copy_pixel sample_wide (data sample_wide) (0 + uint x) (65538 + uint x) d
                 = Some (Ok s') \<and> length s' = 1179684))"
      by blast
  qed
  then show ?thesis
    by (simp add: flipv_row_def sample_wide_fields row_offset_def ck_int_def Let_def)
qed

text \<open>
  Claim C8.  The claim is that \<open>flipv\<close> applied twice, and \<open>fliph\<close> applied twice, give back
  the buffer of any image with even dimensions.  The byte counter \<open>x\<close> of the inner loop is a
  \<open>uint16_t\<close> and the loop runs while \<open>x < width * imageType\<close>: on the 21846 by 2 image the
  bound is 65538, which no \<open>uint16_t\<close> reaches, every access stays inside the buffer, and
  the first call of \<open>flipv\<close> never returns.
\<close>

theorem flipv_never_returns_on_wide_image:
  "flipv sample_wide = None"
proof -
  have "while_loop (\<lambda>y :: 16 word. uint y < img_height sample_wide) (\<lambda>y. y + 1)
          (flipv_row sample_wide) 0 (data sample_wide) = None"
    by (subst while_loop.simps)
       (simp add: sample_wide_fields flipv_row_wide)
  then show ?thesis by (simp add: flipv_def)
qed

section \<open>The in-place filters change the buffer only\<close>

lemma cellShade_channel_len:
  "cellShade_channel p ch d = Some (Ok d') \<Longrightarrow> length d' = length d"
  unfolding cellShade_channel_def by (erule bindR_Ok) (rule store_len)

lemma cellShade_pixel_len:
  assumes "cellShade_pixel b row x d = Some (Ok d')"
  shows "length d' = length d"
proof -
  from assms obtain off where
    "while_loop (\<lambda>ch :: 8 word. uint ch < bpp b) (\<lambda>ch. ch + 1)
       (cellShade_channel (row + off)) 0 d = Some (Ok d')"
    unfolding cellShade_pixel_def by (rule bindR_Ok)
  then show ?thesis
    by (rule while_loop_preserves[where P = "\<lambda>s. length s = length d"])
       (simp_all add: cellShade_channel_len)
qed

lemma cellShade_row_len:
  assumes "cellShade_row b y d = Some (Ok d')"
  shows "length d' = length d"
  using assms unfolding cellShade_row_def
  by (rule while_loop_preserves[where P = "\<lambda>s. length s = length d"])
     (simp_all add: cellShade_pixel_len)

lemma cellShade_frame:
  assumes "cellShade b = Some (Ok b')"
  shows "same_metadata b b'"
proof -
  from assms obtain d where
    d: "while_loop (\<lambda>y. y < img_height b) (\<lambda>y. y + 1) (cellShade_row b) 0 (data b) = Some (Ok d)"
    and b': "Some (Ok (b\<lparr>data := d\<rparr>)) = Some (Ok b')"
    unfolding cellShade_def by (rule bindR_Ok)
  from d have "length d = length (data b)"
    by (rule while_loop_preserves[where P = "\<lambda>s. length s = length (data b)"])
       (simp_all add: cellShade_row_len)
  with b' show ?thesis by (auto simp: same_metadata_def)
qed

lemma gray_store_len: "gray_store d p g = Some (Ok d') \<Longrightarrow> length d' = length d"
  unfolding gray_store_def
  by (elim bindR_Ok) (auto dest!: store_len)

lemma grayscale_at_len: "grayscale_at b p d = Some (Ok d') \<Longrightarrow> length d' = length d"
  unfolding grayscale_at_def
  by (elim bindR_Ok) (auto simp: Let_def split: if_splits elim!: bindR_Ok dest!: store_len gray_store_len)

lemma grayscale_pixel_len: "grayscale_pixel b row x d = Some (Ok d') \<Longrightarrow> length d' = length d"
  unfolding grayscale_pixel_def by (erule bindR_Ok) (rule grayscale_at_len)

lemma grayscale_row_len:
  assumes "grayscale_row b y d = Some (Ok d')"
  shows "length d' = length d"
  using assms unfolding grayscale_row_def
  by (rule while_loop_preserves[where P = "\<lambda>s. length s = length d"])
     (simp_all add: grayscale_pixel_len)

lemma grayscale_frame:
  assumes "grayscale b = Some (Ok b')"
  shows "same_metadata b b'"
proof -
  from assms obtain d where
    d: "while_loop (\<lambda>y. y < img_height b) (\<lambda>y. y + 1) (grayscale_row b) 0 (data b) = Some (Ok d)"
    and b': "Some (Ok (b\<lparr>data := d\<rparr>)) = Some (Ok b')"
    unfolding grayscale_def by (rule bindR_Ok)
  from d have "length d = length (data b)"
    by (rule while_loop_preserves[where P = "\<lambda>s. length s = length (data b)"])
       (simp_all add: grayscale_row_len)
  with b' show ?thesis by (auto simp: same_metadata_def)
qed

lemma pixelate_store_len:
  "pixelate_store b val oRow x oX d = Some (Ok d') \<Longrightarrow> length d' = length d"
  unfolding pixelate_store_def
  by (elim bindR_Ok) (auto simp: Let_def split: if_splits elim!: bindR_Ok dest!: store_len)

lemma pixelate_fill_len:
  assumes "pixelate_fill b val y x d = Some (Ok d')"
  shows "length d' = length d"
  using assms unfolding pixelate_fill_def
proof (rule while_loop_preserves[where P = "\<lambda>s. length s = length d"])
  fix oY :: int and s s' :: "8 word list"
  assume l: "length s = length d"
    and r: "bindR (table_get pixelate_offset oY) (\<lambda>oy.
            while_loop (\<lambda>oX. oX < 17) (\<lambda>oX. oX + 1)
              (pixelate_store b val (row_offset (row_stride b) (y + oy)) x) 0 s) = Some (Ok s')"
  from r obtain oy where "while_loop (\<lambda>oX. oX < 17) (\<lambda>oX. oX + 1)
              (pixelate_store b val (row_offset (row_stride b) (y + oy)) x) 0 s = Some (Ok s')"
    by (rule bindR_Ok)
  then show "length s' = length d"
    by (rule while_loop_preserves[where P = "\<lambda>s. length s = length d"])
       (simp_all add: l pixelate_store_len)
qed simp

lemma pixelate_block_len:
  "pixelate_block b y x d = Some (Ok d') \<Longrightarrow> length d' = length d"
  unfolding pixelate_block_def by (erule bindR_Ok) (rule pixelate_fill_len)

lemma pixelate_frame:
  assumes "pixelate b = Some (Ok b')"
  shows "same_metadata b b'"
proof -
  from assms obtain ylim d where
    d: "while_loop (\<lambda>y. y < ylim) (\<lambda>y. y + 8)
              (\<lambda>y d. bindR (ck_int (img_width b - 8)) (\<lambda>xlim.
                   while_loop (\<lambda>x. x < xlim) (\<lambda>x. x + 8) (pixelate_block b y) 8 d))
              8 (data b) = Some (Ok d)"
    and b': "Some (Ok (b\<lparr>data := d\<rparr>)) = Some (Ok b')"
    unfolding pixelate_def by (elim bindR_Ok)
  from d have "length d = length (data b)"
  proof (rule while_loop_preserves[where P = "\<lambda>s. length s = length (data b)"])
    fix y :: int and s s' :: "8 word list"
    assume l: "length s = length (data b)"
      and r: "bindR (ck_int (img_width b - 8)) (\<lambda>xlim.
                   while_loop (\<lambda>x. x < xlim) (\<lambda>x. x + 8) (pixelate_block b y) 8 s) = Some (Ok s')"
    from r obtain xlim where
      "while_loop (\<lambda>x. x < xlim) (\<lambda>x. x + 8) (pixelate_block b y) 8 s = Some (Ok s')"
      by (rule bindR_Ok)
    then show "length s' = length (data b)"
      by (rule while_loop_preserves[where P = "\<lambda>s. length s = length (data b)"])
         (simp_all add: l pixelate_block_len)
  qed simp
  with b' show ?thesis by (auto simp: same_metadata_def)
qed

lemma blur_write_len:
  "blur_write pixel ch st = Some (Ok st') \<Longrightarrow> length (snd st') = length (snd st)"
  unfolding blur_write_def
  by (elim bindR_Ok) (auto simp: Let_def elim!: bindR_Ok dest!: store_len)

lemma blur_pixel_len:
  assumes "blur_pixel b y x d = Some (Ok d')"
  shows "length d' = length d"
proof -
  from assms obtain off fv st where
    w: "while_loop (\<lambda>ch :: 8 word. uint ch < bpp b) (\<lambda>ch. ch + 1)
          (blur_write (row_offset (row_stride b) y + off)) 0 (fv, d) = Some (Ok st)"
    and e: "Some (Ok (snd st)) = Some (Ok d')"
    unfolding blur_pixel_def Let_def by (elim bindR_Ok)
  from w have "length (snd st) = length d"
    by (rule while_loop_preserves[where P = "\<lambda>s. length (snd s) = length d"])
       (simp_all add: blur_write_len)
  with e show ?thesis by simp
qed

lemma blur_frame:
  assumes "blur b = Some (Ok b')"
  shows "same_metadata b b'"
proof -
  from assms obtain ylim d where
    d: "while_loop (\<lambda>y. y < ylim) (\<lambda>y. y + 1)
              (\<lambda>y d. bindR (ck_int (img_width b - 3)) (\<lambda>xlim.
                   while_loop (\<lambda>x. x < xlim) (\<lambda>x. x + 1) (blur_pixel b y) 2 d))
              2 (data b) = Some (Ok d)"
    and b': "Some (Ok (b\<lparr>data := d\<rparr>)) = Some (Ok b')"
    unfolding blur_def by (elim bindR_Ok)
  from d have "length d = length (data b)"
  proof (rule while_loop_preserves[where P = "\<lambda>s. length s = length (data b)"])
    fix y :: int and s s' :: "8 word list"
    assume l: "length s = length (data b)"
      and r: "bindR (ck_int (img_width b - 3)) (\<lambda>xlim.
                   while_loop (\<lambda>x. x < xlim) (\<lambda>x. x + 1) (blur_pixel b y) 2 s) = Some (Ok s')"
    from r obtain xlim where
      "while_loop (\<lambda>x. x < xlim) (\<lambda>x. x + 1) (blur_pixel b y) 2 s = Some (Ok s')"
      by (rule bindR_Ok)
    then show "length s' = length (data b)"
      by (rule while_loop_preserves[where P = "\<lambda>s. length s = length (data b)"])
         (simp_all add: l blur_pixel_len)
  qed simp
  with b' show ?thesis by (auto simp: same_metadata_def)
qed

lemma copy_pixel_len:
  "copy_pixel b original src dst d = Some (Ok d') \<Longrightarrow> length d' = length d"
  unfolding copy_pixel_def
  by (elim bindR_Ok) (auto split: if_splits elim!: bindR_Ok dest!: store_len)

lemma flipv_row_len:
  assumes "flipv_row b y d = Some (Ok d')"
  shows "length d' = length d"
proof -
  from assms obtain lim where
    "while_loop (\<lambda>x :: 16 word. uint x < lim) (\<lambda>x. x + imageType b)
       (\<lambda>x. copy_pixel b (data b) (row_offset (row_stride b) (uint y) + uint x)
              (row_offset (row_stride b) ((img_height b - 1) - uint y) + uint x)) 0 d = Some (Ok d')"
    unfolding flipv_row_def Let_def by (elim bindR_Ok)
  then show ?thesis
    by (rule while_loop_preserves[where P = "\<lambda>s. length s = length d"])
       (simp_all add: copy_pixel_len)
qed

lemma flipv_frame:
  assumes "flipv b = Some (Ok b')"
  shows "same_metadata b b'"
proof -
  from assms obtain d where
    d: "while_loop (\<lambda>y :: 16 word. uint y < img_height b) (\<lambda>y. y + 1) (flipv_row b) 0 (data b)
          = Some (Ok d)"
    and b': "Some (Ok (b\<lparr>data := d\<rparr>)) = Some (Ok b')"
    unfolding flipv_def by (rule bindR_Ok)
  from d have "length d = length (data b)"
    by (rule while_loop_preserves[where P = "\<lambda>s. length s = length (data b)"])
       (simp_all add: flipv_row_len)
  with b' show ?thesis by (auto simp: same_metadata_def)
qed

lemma fliph_pixel_len:
  "fliph_pixel b row x d = Some (Ok d') \<Longrightarrow> length d' = length d"
  unfolding fliph_pixel_def Let_def
  by (erule bindR_Ok) (rule copy_pixel_len)

lemma fliph_row_len:
  assumes "fliph_row b y d = Some (Ok d')"
  shows "length d' = length d"
proof -
  from assms obtain lim where
    "while_loop (\<lambda>x :: 16 word. uint x < lim) (\<lambda>x. x + imageType b)
       (fliph_pixel b (row_offset (row_stride b) (uint y))) 0 d = Some (Ok d')"
    unfolding fliph_row_def Let_def by (elim bindR_Ok)
  then show ?thesis
    by (rule while_loop_preserves[where P = "\<lambda>s. length s = length d"])
       (simp_all add: fliph_pixel_len)
qed

lemma fliph_frame:
  assumes "fliph b = Some (Ok b')"
  shows "same_metadata b b'"
proof -
  from assms obtain d where
    d: "while_loop (\<lambda>y :: 16 word. uint y < img_height b) (\<lambda>y. y + 1) (fliph_row b) 0 (data b)
          = Some (Ok d)"
    and b': "Some (Ok (b\<lparr>data := d\<rparr>)) = Some (Ok b')"
    unfolding fliph_def by (rule bindR_Ok)
  from d have "length d = length (data b)"
    by (rule while_loop_preserves[where P = "\<lambda>s. length s = length (data b)"])
       (simp_all add: fliph_row_len)
  with b' show ?thesis by (auto simp: same_metadata_def)
qed

text \<open>
  Whenever one of the in-place filters \<open>cellShade\<close>, \<open>grayscale\<close>, \<open>pixelate\<close>, \<open>blur\<close>,
  \<open>flipv\<close>, \<open>fliph\<close> returns, the file header, the info header, the colour header,
  \<open>row_stride\<close>, \<open>imageType\<close> and the length of the buffer are what they were before the
  call.
\<close>

lemma in_place_filters_keep_metadata:
  assumes "f \<in> set [cellShade, grayscale, pixelate, blur, flipv, fliph]"
    and "f b = Some (Ok b')"
  shows "same_metadata b b'"
  using assms cellShade_frame grayscale_frame pixelate_frame blur_frame flipv_frame fliph_frame
  by auto

text \<open>
  For \<open>pixelate\<close> this covers no call that writes.  The loop that writes a block runs \<open>oX\<close>
  up to 16 and reads \<open>offset[oX]\<close> from a table of 16 entries, so no block is ever
  completed: a call of \<open>pixelate\<close> that returns has entered no block and has changed nothing.
\<close>

lemma pixelate_store_16: "pixelate_store b val oRow x 16 d \<noteq> Some (Ok d')"
  by (simp add: pixelate_store_def table_get_def pixelate_offset_def)

lemma pixelate_fill_stuck: "pixelate_fill b val y x d \<noteq> Some (Ok d')"
  unfolding pixelate_fill_def
proof (rule while_loop_stuck[where k = 0])
  fix s s'
  have "while_loop (\<lambda>oX. oX < 17) (\<lambda>oX. oX + 1)
          (pixelate_store b val (row_offset (row_stride b) (y + (-8))) x) 0 s \<noteq> Some (Ok s')"
    by (rule while_loop_stuck[where k = 16]) (simp_all add: pixelate_store_16)
  then show "bindR (table_get pixelate_offset 0) (\<lambda>oy.
            while_loop (\<lambda>oX. oX < 17) (\<lambda>oX. oX + 1)
              (pixelate_store b val (row_offset (row_stride b) (y + oy)) x) 0 s) \<noteq> Some (Ok s')"
    by (simp add: table_get_def pixelate_offset_def)
qed simp_all

lemma pixelate_block_stuck: "pixelate_block b y x d \<noteq> Some (Ok d')"
proof
  assume "pixelate_block b y x d = Some (Ok d')"
  then obtain val where
    "pixelate_fill b [val ! 0 div 256, val ! 1 div 256, val ! 2 div 256,
                      if imageType b = 4 then val ! 3 div 256 else val ! 3] y x d = Some (Ok d')"
    unfolding pixelate_block_def by (rule bindR_Ok)
  then show False by (rule notE[OF pixelate_fill_stuck])
qed

lemma pixelate_returns_only_unchanged:
  assumes "pixelate b = Some (Ok b')"
  shows "b' = b"
proof -
  from assms obtain ylim d where
    d: "while_loop (\<lambda>y. y < ylim) (\<lambda>y. y + 8)
              (\<lambda>y d. bindR (ck_int (img_width b - 8)) (\<lambda>xlim.
                   while_loop (\<lambda>x. x < xlim) (\<lambda>x. x + 8) (pixelate_block b y) 8 d))
              8 (data b) = Some (Ok d)"
    and b': "Some (Ok (b\<lparr>data := d\<rparr>)) = Some (Ok b')"
    unfolding pixelate_def by (elim bindR_Ok)
  from d have "d = data b"
  proof (rule while_loop_preserves[where P = "\<lambda>s. s = data b"])
    fix y :: int and s s' :: "8 word list"
    assume l: "s = data b"
      and r: "bindR (ck_int (img_width b - 8)) (\<lambda>xlim.
                   while_loop (\<lambda>x. x < xlim) (\<lambda>x. x + 8) (pixelate_block b y) 8 s) = Some (Ok s')"
    from r obtain xlim where
      "while_loop (\<lambda>x. x < xlim) (\<lambda>x. x + 8) (pixelate_block b y) 8 s = Some (Ok s')"
      by (rule bindR_Ok)
    then show "s' = data b"
      by (rule while_loop_preserves[where P = "\<lambda>s. s = data b"])
         (simp_all add: l pixelate_block_stuck)
  qed simp
  with b' show ?thesis by simp
qed

lemma sample_white17_fields: "img_height sample_white_17x17 = 17" "img_width sample_white_17x17 = 17"
    "bpp sample_white_17x17 = 3" "row_stride sample_white_17x17 = 51" "imageType sample_white_17x17 = 3"
    "data sample_white_17x17 = replicate 867 255 @ replicate 6936 0"
    by (simp_all add: sample_white_17x17_def img_height_def img_width_def bpp_def
        BMPInfoHeader_init_def)

lemma sum_white: "pixelate_sum sample_white_17x17 (replicate 867 255 @ replicate 6936 0) 8 8
    = Some (Ok [65280, 65280, 65280, 0])"
  by (simp add: pixelate_sum_def pixelate_sample_def sample_white17_fields while_loop.simps table_get_def pixelate_offset_def
     ck_int_def load_def row_offset_def value_add_def Let_def nth_append)

lemma fill_white:
  "pixelate_fill sample_white_17x17 [255, 255, 255, 0] 8 8 (replicate 867 255 @ replicate 6936 0)
     = Some (Fault (Table_out_of_range 16))"
  by (simp add: pixelate_fill_def pixelate_store_def sample_white17_fields while_loop.simps table_get_def
      pixelate_offset_def ck_int_def store_def row_offset_def Let_def)

text \<open>
  Claim C10.  The claim is that every in-place filter, \<open>pixelate\<close> among them, leaves the
  headers, \<open>row_stride\<close>, \<open>imageType\<close> and the length of the buffer as they were.  On the
  white 17 by 17 image \<open>pixelate\<close> enters the block at (8, 8), stores the average in the 16
  pixels of its first row, and then reads \<open>offset[16]\<close>, past the end of the table; the
  next store goes through the address computed from that value.  This is undefined
  behaviour, and the call has no defined state after it, for the buffer or for the
  metadata.
\<close>

theorem pixelate_has_no_state_after_a_block:
  "pixelate sample_white_17x17 = Some (Fault (Table_out_of_range 16))"
  by (simp add: pixelate_def pixelate_block_def sample_white17_fields ck_int_def while_loop.simps
      sum_white fill_white)

section \<open>scaleUp followed by scaleDown\<close>

lemma copy_channels_ok:
  assumes "\<And>k. 0 \<le> k \<Longrightarrow> k \<le> 3 \<Longrightarrow> 0 \<le> src k \<and> src k < int (length original)"
    and "\<And>k. 0 \<le> k \<Longrightarrow> k \<le> 3 \<Longrightarrow> 0 \<le> dst k \<and> dst k < int (length d)"
  shows "\<exists>d'. copy_channels b original src dst d = Some (Ok d') \<and> length d' = length d"
  using assms(1)[of 0] assms(1)[of 1] assms(1)[of 2] assms(1)[of 3]
    assms(2)[of 0] assms(2)[of 1] assms(2)[of 2] assms(2)[of 3]
  by (simp add: copy_channels_def load_def store_def)

lemma zero_channels_ok:
  assumes "\<And>k. 0 \<le> k \<Longrightarrow> k \<le> 3 \<Longrightarrow> 0 \<le> dst k \<and> dst k < int (length d)"
  shows "\<exists>d'. zero_channels b dst d = Some (Ok d') \<and> length d' = length d"
  using assms[of 0] assms[of 1] assms[of 2] assms[of 3]
  by (simp add: zero_channels_def store_def)

lemma idx32_simple:
  assumes "0 \<le> k" "uint c * uint n + k < 2 ^ 32"
  shows "idx32 c n k = uint c * uint n + k"
proof -
  have p: "0 \<le> uint c * uint n + k" using assms by simp
  have "uint n < 65536" using uint_lt2p[of n] by simp
  then have n: "uint n mod 4294967296 = uint n" by (simp add: mod_pos_pos_trivial)
  have k: "k mod 4294967296 = k"
  proof -
    have a2: "uint c * uint n + k < 4294967296" using assms(2) by simp
    have nn: "0 \<le> uint c * uint n" by simp
    from a2 nn have "k < 4294967296" by linarith
    then show ?thesis using assms(1) by (simp add: mod_pos_pos_trivial)
  qed
  have "idx32 c n k = (uint c * uint n + k) mod 4294967296"
    unfolding idx32_def
    by (simp add: uint_word_ariths uint_word_of_int unsigned_ucast_eq take_bit_eq_mod n
        mod_add_right_eq mod_add_left_eq)
  then show ?thesis using p assms(2) by (simp add: mod_pos_pos_trivial)
qed

lemma scaleUp_copy_ok:
  fixes n :: int
  assumes bn: "bpp b = n" and n: "n = 3 \<or> n = 4"
    and src: "0 \<le> originalRow" "originalRow + uint x * n + 3 < int (length original)"
    and dst: "0 \<le> row" "row + uint c * n + 3 < int (length d)"
    and c32: "uint c * n + 3 < 2 ^ 32" "uint c + 1 < 2 ^ 32"
    and x31: "uint x * n < 2 ^ 31"
  shows "\<exists>d'. scaleUp_copy b original originalRow row x (c, d) = Some (Ok (c + 1, d'))
            \<and> length d' = length d \<and> uint (c + 1) = uint c + 1"
proof -
  have un: "uint (imageType b) = n" using bn by (simp add: bpp_def)
  have ck: "ck_int (uint x * bpp b) = Some (Ok (uint x * n))"
    using x31 n bn by (auto simp: ck_int_def intro: order_trans[of _ 0])
  have idx: "idx32 c (imageType b) k = uint c * n + k" if "0 \<le> k" "k \<le> 3" for k
  proof -
    have "uint c * uint (imageType b) + k < 2 ^ 32" using c32(1) that un by simp
    from idx32_simple[OF that(1) this] show ?thesis using un by simp
  qed
  have cn: "0 \<le> uint c * n" "0 \<le> uint x * n" using n by auto
  have "\<exists>d'. copy_channels b original (\<lambda>k. originalRow + (uint x * n + k))
              (\<lambda>k. row + idx32 c (imageType b) k) d = Some (Ok d') \<and> length d' = length d"
  proof (rule copy_channels_ok)
    fix k :: int assume k: "0 \<le> k" "k \<le> 3"
    show "0 \<le> originalRow + (uint x * n + k) \<and> originalRow + (uint x * n + k) < int (length original)"
      using k src cn by linarith
    show "0 \<le> row + idx32 c (imageType b) k \<and> row + idx32 c (imageType b) k < int (length d)"
      using k dst cn idx[OF k] by linarith
  qed
  then obtain d' where d': "copy_channels b original (\<lambda>k. originalRow + (uint x * n + k))
              (\<lambda>k. row + idx32 c (imageType b) k) d = Some (Ok d')" "length d' = length d" by blast
  have u: "uint (c + 1) = uint c + 1"
    using c32(2) by (simp add: uint_word_ariths mod_pos_pos_trivial)
  show ?thesis using d' ck u by (simp add: scaleUp_copy_def)
qed

lemma scaleUp_row_ok:
  fixes W H n :: int
  assumes b: "img_width b = 2 * W" "bpp b = n" "uint (row_stride b) = 2 * (W * n)"
      "uint (width (bmp_info_header b)) = 2 * W"
    and n: "n = 3 \<or> n = 4" and W: "0 < W" "2 * W \<le> 65535" and H: "0 < H" "2 * H \<le> 65535"
    and L: "9 * (W * n * H) \<le> int L" "4 * (W * n * H) < 2 ^ 32"
    and orow: "0 \<le> originalRow" "originalRow \<le> W * n * (H - 1)"
    and lo: "length original = L"
    and r: "uint r < 2 * H" and d: "length d = L"
  shows "\<exists>d'. scaleUp_row b original originalRow (r, d) = Some (Ok (r + 1, d'))
           \<and> length d' = L \<and> uint (r + 1) = uint r + 1"
proof -
  define A where "A = W * n"
  have A: "0 < A" "3 * W \<le> A" "A \<le> 4 * W" using n W by (auto simp: A_def)
  have AH: "A \<le> A * H" using A H by (simp add: mult_le_cancel_left1)
  have L': "9 * (A * H) \<le> int L" "4 * (A * H) < 2 ^ 32" using L by (simp_all add: A_def)
  have r1: "uint r + 1 \<le> 2 * H" using r by simp
  have "2 * A * (uint r + 1) \<le> 2 * A * (2 * H)" using r1 A by (intro mult_left_mono) simp_all
  then have rowb: "2 * A * uint r + 2 * A \<le> 4 * (A * H)" by (simp add: algebra_simps)
  have row32: "2 * A * uint r < 2 ^ 32" using rowb L'(2) A by linarith
  have row: "uint (row_stride b * r) = 2 * A * uint r"
  proof -
    have "0 \<le> 2 * A * uint r" using A by simp
    then show ?thesis using row32 b(3)
      by (simp add: uint_word_ariths A_def mod_pos_pos_trivial)
  qed
  have ur: "uint (r + 1) = uint r + 1"
  proof -
    have "uint r + 1 < 2 ^ 32" using r1 H by simp
    then show ?thesis by (simp add: uint_word_ariths mod_pos_pos_trivial)
  qed
  let ?row = "2 * A * uint r"
  let ?copy = "\<lambda>x. scaleUp_copy b original originalRow ?row x"
  have col: "\<exists>s'. while_loop (\<lambda>cCount :: 16 word. uint cCount < 2) (\<lambda>cCount. cCount + 1)
                 (\<lambda>cCount. ?copy (word_of_int x)) 0 s = Some (Ok s')
               \<and> (uint (fst s') = 2 * (x + 1) \<and> length (snd s') = L)"
    if x: "0 \<le> x" "x < 2 * W" and s: "uint (fst s) = 2 * x \<and> length (snd s) = L" for x s
  proof -
    have ux: "uint (word_of_int x :: 16 word) = x"
      using x W by (simp add: uint_word_of_int mod_pos_pos_trivial)
    have "(x + 1) * n \<le> (2 * W) * n" using x n by (intro mult_right_mono) auto
    then have xn: "x * n + n \<le> 2 * A" by (simp add: algebra_simps A_def)
    have "\<exists>s'. while_loop (\<lambda>cCount :: 16 word. uint cCount < 2) (\<lambda>cCount. cCount + 1)
                 (\<lambda>cCount. ?copy (word_of_int x)) 0 s = Some (Ok s')
               \<and> (uint (fst s') = 2 * x + 2 \<and> length (snd s') = L)"
    proof (rule for_word_total[where I = "\<lambda>k s. uint (fst s) = 2 * x + k \<and> length (snd s) = L"])
      show "(0::int) \<le> 2" "(2::int) < 2 ^ LENGTH(16)" by simp_all
      show "uint (fst s) = 2 * x + 0 \<and> length (snd s) = L" using s by simp
    next
      fix k :: int and t :: "32 word \<times> 8 word list"
      assume k: "0 \<le> k" "k < 2" and t: "uint (fst t) = 2 * x + k \<and> length (snd t) = L"
      obtain c e where ce: "t = (c, e)" by (cases t)
      have c: "uint c = 2 * x + k" and e: "length e = L" using t ce by simp_all
      have "(uint c + 1) * n \<le> (4 * W) * n" using c k x n by (intro mult_right_mono) auto
      then have cn: "uint c * n + n \<le> 4 * A" by (simp add: algebra_simps A_def)
      have xn0: "0 \<le> x * n" using x n by auto
      have "\<exists>d'. scaleUp_copy b original originalRow ?row (word_of_int x) (c, e)
                = Some (Ok (c + 1, d')) \<and> length d' = length e \<and> uint (c + 1) = uint c + 1"
      proof (rule scaleUp_copy_ok[OF b(2) n])
        show "0 \<le> originalRow" by (rule orow)
        show "originalRow + uint (word_of_int x :: 16 word) * n + 3 < int (length original)"
          using orow xn n L' AH A lo by (simp add: ux A_def[symmetric] algebra_simps; linarith)
        show "0 \<le> ?row" using A by simp
        show "?row + uint c * n + 3 < int (length e)"
          using cn rowb n L' AH A e by (simp; linarith)
        show "uint c * n + 3 < 2 ^ 32" using cn n L' AH A by (simp; linarith)
        show "uint c + 1 < 2 ^ 32" using c k x W by simp
        show "uint (word_of_int x :: 16 word) * n < 2 ^ 31" using xn n A W by (simp add: ux; linarith)
      qed
      then obtain d' where "scaleUp_copy b original originalRow ?row (word_of_int x) (c, e)
                = Some (Ok (c + 1, d'))" "length d' = length e" "uint (c + 1) = uint c + 1"
        by blast
      then show "\<exists>s'. ?copy (word_of_int x) t = Some (Ok s') \<and>
                   (uint (fst s') = 2 * x + (k + 1) \<and> length (snd s') = L)"
        using ce c e by simp
    qed
    then show ?thesis by (simp add: algebra_simps)
  qed
  have "\<exists>s'. while_loop (\<lambda>x :: 16 word. uint x < 2 * W) (\<lambda>x. x + 1)
               (\<lambda>x. while_loop (\<lambda>cCount :: 16 word. uint cCount < 2) (\<lambda>cCount. cCount + 1)
                        (\<lambda>cCount. ?copy x) 0)
               0 (0, d) = Some (Ok s') \<and> (uint (fst s') = 2 * (2 * W) \<and> length (snd s') = L)"
  proof (rule for_word_total[where I = "\<lambda>x s. uint (fst s) = 2 * x \<and> length (snd s) = L"])
    show "0 \<le> 2 * W" "2 * W < 2 ^ LENGTH(16)" using W by simp_all
    show "uint (fst (0 :: 32 word, d)) = 2 * 0 \<and> length (snd (0 :: 32 word, d)) = L"
      using d by simp
  next
    fix x :: int and s :: "32 word \<times> 8 word list"
    assume "0 \<le> x" "x < 2 * W" "uint (fst s) = 2 * x \<and> length (snd s) = L"
    from col[OF this]
    show "\<exists>s'. while_loop (\<lambda>cCount :: 16 word. uint cCount < 2) (\<lambda>cCount. cCount + 1)
                 (\<lambda>cCount. ?copy (word_of_int x)) 0 s = Some (Ok s')
               \<and> (uint (fst s') = 2 * (x + 1) \<and> length (snd s') = L)" .
  qed
  then obtain c' d' where xs: "while_loop (\<lambda>x :: 16 word. uint x < 2 * W) (\<lambda>x. x + 1)
               (\<lambda>x. while_loop (\<lambda>cCount :: 16 word. uint cCount < 2) (\<lambda>cCount. cCount + 1)
                        (\<lambda>cCount. ?copy x) 0)
               0 (0, d) = Some (Ok (c', d'))" and c': "uint c' = 4 * W" and d': "length d' = L"
    by auto
  have nofill: "\<not> c' < width (bmp_info_header b)"
    using c' b(4) W by (simp add: word_less_def)
  have fill: "while_loop (\<lambda>c :: 32 word. c < width (bmp_info_header b)) (\<lambda>c. c + 1)
               (\<lambda>c. zero_channels b (\<lambda>k. ?row + idx32 c (imageType b) k)) c' d' = Some (Ok d')"
    using nofill by (subst while_loop.simps) simp
  show ?thesis
    using xs fill d' ur by (simp add: scaleUp_row_def row b(1) Let_def)
qed

lemma scale_header_ok:
  assumes n: "bpp b = 3 \<or> bpp b = 4"
    and bc: "uint (bit_count (bmp_info_header b)) = 8 * bpp b"
    and w: "0 \<le> w" "w \<le> 65535" "w mod 4 = 0" and h: "0 \<le> h" "h \<le> 65535"
  shows "scale_header b w h = Some (Ok (scaled_header b w h))"
    and "img_width (scaled_header b w h) = w"
    and "img_height (scaled_header b w h) = h"
    and "bpp (scaled_header b w h) = bpp b"
    and "uint (row_stride (scaled_header b w h)) = w * bpp b"
    and "uint (width (bmp_info_header (scaled_header b w h))) = w"
    and "data (scaled_header b w h) = data b"
    and "uint (bit_count (bmp_info_header (scaled_header b w h))) = 8 * bpp b"
proof -
  have sm: "w smod 4 = 0"
    using w by (simp add: signed_modulo_int_def sgn_if)
  have "w * (8 * bpp b) = (w * bpp b) * 8" by simp
  moreover have "0 \<le> w * bpp b" using w n by auto
  ultimately have sd: "(w * (8 * bpp b)) sdiv 8 = w * bpp b"
    by (simp add: signed_divide_int_def sgn_if del: mult_eq_0_iff) 
  have wn: "w * bpp b \<le> 65535 * 4" using w n by auto
  show "scale_header b w h = Some (Ok (scaled_header b w h))"
    using w n wn by (auto simp: scale_header_def scaled_header_def sm bc sd ck_int_def)
  show "img_width (scaled_header b w h) = w"
    using w by (simp add: scaled_header_def img_width_def sint32_small)
  show "img_height (scaled_header b w h) = h"
    using h by (simp add: scaled_header_def img_height_def sint32_small)
  show "bpp (scaled_header b w h) = bpp b" by (simp add: scaled_header_def bpp_def)
  have "0 \<le> w * bpp b" "w * bpp b < 2 ^ 32" using w n wn by auto
  then have "uint (word_of_int (w * bpp b) :: 32 word) = w * bpp b"
    by (rule uint32_small)
  then show "uint (row_stride (scaled_header b w h)) = w * bpp b"
    by (simp add: scaled_header_def)
  show "uint (width (bmp_info_header (scaled_header b w h))) = w"
    using w by (simp add: scaled_header_def uint_word_of_int mod_pos_pos_trivial)
  show "data (scaled_header b w h) = data b" by (simp add: scaled_header_def)
  show "uint (bit_count (bmp_info_header (scaled_header b w h))) = 8 * bpp b"
    using bc by (simp add: scaled_header_def)
qed

lemma scaleUp_ok:
  assumes s: "scalable b" and even: "img_width b mod 2 = 0"
  shows "\<exists>d. scaleUp b = Some (Ok ((scaled_header b (2 * img_width b) (2 * img_height b))\<lparr>data := d\<rparr>))
           \<and> length d = length (data b)"
proof -
  define W where "W = img_width b"
  define H where "H = img_height b"
  define n where "n = bpp b"
  define L where "L = length (data b)"
  let ?b' = "scaled_header b (2 * W) (2 * H)"
  have n: "n = 3 \<or> n = 4" and bc: "uint (bit_count (bmp_info_header b)) = 8 * bpp b"
    and W: "0 < W" "2 * W \<le> 65535" and H: "0 < H" "2 * H \<le> 65535"
    and rs: "uint (row_stride b) \<le> W * n"
    and Lb: "9 * (W * n * H) \<le> int L" "4 * (W * n * H) < 2 ^ 32"
    using s by (simp_all add: scalable_def W_def H_def n_def L_def)
  have w4: "(2 * W) mod 4 = 0" using even unfolding W_def by presburger
  note hd = scale_header_ok[OF n[unfolded n_def] bc _ W(2) w4 _ H(2)]
  have hdr: "scale_header b (2 * W) (2 * H) = Some (Ok ?b')" using hd(1) W H by simp
  have f: "img_width ?b' = 2 * W" "bpp ?b' = n" "uint (row_stride ?b') = 2 * (W * n)"
    "uint (width (bmp_info_header ?b')) = 2 * W" "data ?b' = data b"
    using hd(2,4,5,6,7) W H by (simp_all add: n_def)
  have A: "0 < W * n" using W n by auto
  have "\<exists>s'. while_loop (\<lambda>y :: 16 word. uint y < H) (\<lambda>y. y + 1)
              (\<lambda>y. while_loop (\<lambda>rCount :: 16 word. uint rCount < 2) (\<lambda>rCount. rCount + 1)
                       (\<lambda>rCount. scaleUp_row ?b' (data b)
                                    (row_offset (row_stride b) (uint y))) 0)
              0 (0, data b) = Some (Ok s') \<and> (uint (fst s') = 2 * H \<and> length (snd s') = L)"
  proof (rule for_word_total[where I = "\<lambda>y s. uint (fst s) = 2 * y \<and> length (snd s) = L"])
    show "0 \<le> H" "H < 2 ^ LENGTH(16)" using H by simp_all
    show "uint (fst (0 :: 32 word, data b)) = 2 * 0 \<and> length (snd (0 :: 32 word, data b)) = L"
      by (simp add: L_def)
  next
    fix y :: int and st :: "32 word \<times> 8 word list"
    assume y: "0 \<le> y" "y < H" and st: "uint (fst st) = 2 * y \<and> length (snd st) = L"
    have uy: "uint (word_of_int y :: 16 word) = y"
      using y H by (simp add: uint_word_of_int mod_pos_pos_trivial)
    have "uint (row_stride b) * y \<le> (W * n) * y" using rs y by (intro mult_right_mono) simp_all
    also have "\<dots> \<le> (W * n) * (H - 1)" using y A by (intro mult_left_mono) simp_all
    finally have ro: "uint (row_stride b) * y \<le> W * n * (H - 1)" .
    have 1: "W * n * (H - 1) \<le> W * n * H" using A by (intro mult_left_mono) simp_all
    have 2: "0 \<le> W * n * H" using A H by simp
    have 3: "4 * (W * n * H) < 4294967296" using Lb(2) by simp
    have "uint (row_stride b) * y < 4294967296" using 1 2 3 ro by linarith
    then have ro32: "uint (row_stride b) * y < 2 ^ 32" by simp
    have orow: "row_offset (row_stride b) (uint (word_of_int y :: 16 word)) = uint (row_stride b) * y"
      using y H ro32 by (simp add: uy row_offset_small)
    have o0: "0 \<le> uint (row_stride b) * y" using y by simp
    show "\<exists>s'. while_loop (\<lambda>rCount :: 16 word. uint rCount < 2) (\<lambda>rCount. rCount + 1)
                 (\<lambda>rCount. scaleUp_row ?b' (data b)
                     (row_offset (row_stride b) (uint (word_of_int y :: 16 word)))) 0 st
               = Some (Ok s') \<and> (uint (fst s') = 2 * (y + 1) \<and> length (snd s') = L)"
      unfolding orow
    proof -
      have "\<exists>s'. while_loop (\<lambda>rCount :: 16 word. uint rCount < 2) (\<lambda>rCount. rCount + 1)
                 (\<lambda>rCount. scaleUp_row ?b' (data b) (uint (row_stride b) * y)) 0 st
               = Some (Ok s') \<and> (uint (fst s') = 2 * y + 2 \<and> length (snd s') = L)"
      proof (rule for_word_total[where I = "\<lambda>k s. uint (fst s) = 2 * y + k \<and> length (snd s) = L"])
        show "(0::int) \<le> 2" "(2::int) < 2 ^ LENGTH(16)" by simp_all
        show "uint (fst st) = 2 * y + 0 \<and> length (snd st) = L" using st by simp
      next
        fix k :: int and t :: "32 word \<times> 8 word list"
        assume k: "0 \<le> k" "k < 2" and t: "uint (fst t) = 2 * y + k \<and> length (snd t) = L"
        obtain r e where re: "t = (r, e)" by (cases t)
        have r: "uint r < 2 * H" and e: "length e = L" using t re k y by simp_all
        from scaleUp_row_ok[OF f(1,2,3,4) n W H Lb o0 ro _ r e, of "data b"]
        obtain d' where "scaleUp_row ?b' (data b) (uint (row_stride b) * y) (r, e)
            = Some (Ok (r + 1, d'))" "length d' = L" "uint (r + 1) = uint r + 1"
          by (auto simp: L_def)
        then show "\<exists>s'. scaleUp_row ?b' (data b) (uint (row_stride b) * y) t = Some (Ok s') \<and>
                   (uint (fst s') = 2 * y + (k + 1) \<and> length (snd s') = L)"
          using re t by simp
      qed
      then show "\<exists>s'. while_loop (\<lambda>rCount :: 16 word. uint rCount < 2) (\<lambda>rCount. rCount + 1)
                 (\<lambda>rCount. scaleUp_row ?b' (data b) (uint (row_stride b) * y)) 0 st
               = Some (Ok s') \<and> (uint (fst s') = 2 * (y + 1) \<and> length (snd s') = L)"
        by (simp add: algebra_simps)
    qed
  qed
  then obtain r' d' where run: "while_loop (\<lambda>y :: 16 word. uint y < H) (\<lambda>y. y + 1)
              (\<lambda>y. while_loop (\<lambda>rCount :: 16 word. uint rCount < 2) (\<lambda>rCount. rCount + 1)
                       (\<lambda>rCount. scaleUp_row ?b' (data b)
                                    (row_offset (row_stride b) (uint y))) 0)
              0 (0, data b) = Some (Ok (r', d'))" and d': "length d' = L"
    by auto
  have ck: "ck_int (W * 2) = Some (Ok (2 * W))" "ck_int (H * 2) = Some (Ok (2 * H))"
    using W H by (simp_all add: ck_int_def mult.commute)
  have "scaleUp b = Some (Ok (?b'\<lparr>data := d'\<rparr>))"
    using ck hdr run
    by (simp add: scaleUp_def W_def[symmetric] H_def[symmetric])
  then show ?thesis using d' by (auto simp: W_def H_def L_def)
qed

lemma uint16_suc:
  assumes "uint (x :: 16 word) < k" "k \<le> 65535"
  shows "uint (x + 1) = uint x + 1"
  using assms by (simp add: uint_word_ariths mod_pos_pos_trivial)

lemma scaleDown_copy_ok:
  fixes n :: int
  assumes bn: "bpp b = n" and n: "n = 3 \<or> n = 4"
    and W1: "uint x < W1" "W1 \<le> 65535"
    and c: "uint c = uint x div 2"
    and src: "0 \<le> originalRow" "originalRow + W1 * n < int (length (data original))"
    and dst: "0 \<le> row" "row + W1 * n < int (length d)"
  shows "\<exists>c' d'. scaleDown_copy b original originalRow row (x, c, d) = Some (Ok (x + 1, c', d'))
            \<and> length d' = length d \<and> uint (x + 1) = uint x + 1 \<and> uint c' = (uint x + 1) div 2"
proof (cases "uint x mod 2 = 0")
  case True
  have "(uint x + 1) div 2 = uint x div 2" using True by presburger
  then show ?thesis
    using True c uint16_suc[OF W1] by (simp add: scaleDown_copy_def smod_nonneg)
next
  case False
  have x0: "0 \<le> uint x" by simp
  have "(uint x + 1) * n \<le> W1 * n" using W1 n by (intro mult_right_mono) auto
  then have xn: "uint x * n + n \<le> W1 * n" by (simp add: algebra_simps)
  have "uint c \<le> uint x" using c x0 by linarith
  then have "uint c * n \<le> uint x * n" using n by (intro mult_right_mono) auto
  then have cn: "uint c * n + n \<le> W1 * n" using xn by linarith
  have Wn: "W1 * n \<le> 65535 * 4" using W1 n by auto
  have nn: "0 \<le> uint c * n" "0 \<le> uint x * n" using n by auto
  have ck: "ck_int (uint c * bpp b) = Some (Ok (uint c * n))"
    "ck_int (uint x * bpp b) = Some (Ok (uint x * n))"
    using cn xn Wn nn n bn by (auto simp: ck_int_def)
  have "\<exists>d'. copy_channels b (data original) (\<lambda>k. originalRow + (uint x * n + k))
              (\<lambda>k. row + (uint c * n + k)) d = Some (Ok d') \<and> length d' = length d"
  proof (rule copy_channels_ok)
    fix k :: int assume k: "0 \<le> k" "k \<le> 3"
    show "0 \<le> originalRow + (uint x * n + k) \<and>
          originalRow + (uint x * n + k) < int (length (data original))"
      using k src xn nn n by linarith
    show "0 \<le> row + (uint c * n + k) \<and> row + (uint c * n + k) < int (length d)"
      using k dst cn nn n by linarith
  qed
  then obtain d' where d': "copy_channels b (data original) (\<lambda>k. originalRow + (uint x * n + k))
              (\<lambda>k. row + (uint c * n + k)) d = Some (Ok d')" "length d' = length d" by blast
  have "uint c + 1 \<le> 65535" using c W1 x0 by linarith
  then have c1: "uint (c + 1) = uint c + 1" by (simp add: uint_word_ariths mod_pos_pos_trivial)
  have "(uint x + 1) div 2 = uint x div 2 + 1" using False by presburger
  then show ?thesis
    using False c c1 d' ck uint16_suc[OF W1]
    by (simp add: scaleDown_copy_def smod_nonneg)
qed

lemma scaleDown_row_ok:
  fixes n W1 W2 H1 :: int
  assumes b: "bpp b = n" "img_width b = W2" "uint (row_stride b) = W2 * n"
    and orig: "img_width original = W1" "length (data original) = L"
    and n: "n = 3 \<or> n = 4"
    and W: "0 \<le> W1" "W1 \<le> 65535" "W2 = W1 div 2"
    and y: "uint y < H1" "H1 \<le> 65535"
    and r: "uint r = uint y div 2"
    and d: "length d = L"
    and src: "uint (row_stride original) * H1 + W1 * n < int L"
      "uint (row_stride original) * H1 < 2 ^ 32"
    and dst: "W2 * n * (H1 div 2) + W1 * n < int L" "W2 * n * (H1 div 2) < 2 ^ 32"
  shows "\<exists>r' c' d'. scaleDown_row b original y (r, c, d) = Some (Ok (r', c', d'))
           \<and> length d' = L \<and> uint r' = (uint y + 1) div 2"
proof (cases "uint y mod 2 = 0")
  case True
  have "(uint y + 1) div 2 = uint y div 2" using True by presburger
  then show ?thesis using True r d by (simp add: scaleDown_row_def smod_nonneg)
next
  case False
  have y0: "0 \<le> uint y" by simp
  have W2n: "0 \<le> W2 * n" using W n by auto
  have "uint (row_stride original) * uint y \<le> uint (row_stride original) * H1"
    using y by (intro mult_left_mono) simp_all
  then have so: "uint (row_stride original) * uint y + W1 * n < int L"
    "uint (row_stride original) * uint y < 2 ^ 32"
    using src by linarith+
  have orow: "row_offset (row_stride original) (uint y) = uint (row_stride original) * uint y"
    using so(2) y by (intro row_offset_small) simp_all
  have rH: "uint r \<le> H1 div 2" using r y by simp
  have "W2 * n * uint r \<le> W2 * n * (H1 div 2)" using rH W2n by (intro mult_left_mono) simp_all
  then have do: "W2 * n * uint r + W1 * n < int L" "W2 * n * uint r < 2 ^ 32"
    using dst by linarith+
  have row: "row_offset (row_stride b) (uint r) = W2 * n * uint r"
  proof -
    have "uint (row_stride b) * uint r < 2 ^ 32" using do(2) b(3) by simp
    then have "row_offset (row_stride b) (uint r) = uint (row_stride b) * uint r"
      using rH y by (intro row_offset_small) simp_all
    then show ?thesis using b(3) by simp
  qed
  let ?orow = "uint (row_stride original) * uint y" and ?row = "W2 * n * uint r"
  let ?J = "\<lambda>(x :: 16 word, c :: 16 word, e :: 8 word list).
               uint x \<le> W1 \<and> uint c = uint x div 2 \<and> length e = L"
  let ?cond = "\<lambda>(x :: 16 word, c :: 16 word, e :: 8 word list).
               uint x < img_width original \<and> \<not> ucast c \<ge> row_stride b"
  have "\<exists>s'. while_state ?cond (scaleDown_copy b original ?orow ?row) (0, 0, d) = Some (Ok s')
          \<and> ?J s' \<and> \<not> ?cond s'"
  proof (rule while_state_total[where I = ?J and m = "\<lambda>(x, c, e). nat (W1 - uint x)"])
    show "?J (0, 0, d)" using W d by simp
  next
    fix s :: "16 word \<times> 16 word \<times> 8 word list"
    assume J: "?J s" and c: "?cond s"
    obtain x c e where s: "s = (x, c, e)" by (cases s) auto
    have x: "uint x < W1" using c s orig by simp
    have cx: "uint c = uint x div 2" and e: "length e = L" using J s by simp_all
    from scaleDown_copy_ok[OF b(1) n x W(2) cx, of ?orow original ?row e]
    obtain c' e' where "scaleDown_copy b original ?orow ?row (x, c, e) = Some (Ok (x + 1, c', e'))"
      "length e' = length e" "uint (x + 1) = uint x + 1" "uint c' = (uint x + 1) div 2"
      using so(1) do(1) orig(2) e W2n by auto
    then show "\<exists>s'. scaleDown_copy b original ?orow ?row s = Some (Ok s') \<and> ?J s' \<and>
        (case s' of (x, c, e) \<Rightarrow> nat (W1 - uint x)) < (case s of (x, c, e) \<Rightarrow> nat (W1 - uint x))"
      using s x e by auto
  qed
  then obtain x' c' d' where
    xs: "while_state ?cond (scaleDown_copy b original ?orow ?row) (0, 0, d) = Some (Ok (x', c', d'))"
    and J': "uint x' \<le> W1" "uint c' = uint x' div 2" "length d' = L"
    and ex: "\<not> (uint x' < W1 \<and> \<not> ucast c' \<ge> row_stride b)"
    using orig(1) by auto
  have nofill: "\<not> uint c' < img_width b"
  proof (cases "uint x' < W1")
    case False
    then have "uint x' = W1" using J'(1) by simp
    then show ?thesis using J'(2) W b(2) by simp
  next
    case True
    then have "row_stride b \<le> ucast c'" using ex by simp
    then have "uint (row_stride b) \<le> uint (ucast c' :: 32 word)" by (simp add: word_le_def)
    moreover have "uint (ucast c' :: 32 word) = uint c'"
    proof -
      have "uint c' < 65536" using uint_lt2p[of c'] by simp
      then show ?thesis by (simp add: unsigned_ucast_eq take_bit_eq_mod mod_pos_pos_trivial)
    qed
    moreover have "W2 \<le> W2 * n" using W n by auto
    ultimately show ?thesis using b(2,3) by simp
  qed
  have fill: "while_state (\<lambda>(c, e). uint c < img_width b) (scaleDown_fill b ?row) (c', d')
      = Some (Ok (c', d'))"
    using nofill by (subst while_state.simps) simp
  have "uint r + 1 \<le> 65535" using rH y by linarith
  then have r1: "uint (r + 1) = uint r + 1" by (simp add: uint_word_ariths mod_pos_pos_trivial)
  have run: "scaleDown_row b original y (r, c, d) = Some (Ok (r + 1, c', d'))"
    using False xs fill
    by (simp add: scaleDown_row_def smod_nonneg orow row Let_def)
  have "(uint y + 1) div 2 = uint y div 2 + 1" using False by presburger
  then have "uint (r + 1) = (uint y + 1) div 2" using r r1 by simp
  with run J'(3) show ?thesis by blast
qed

lemma scaleDown_ok:
  fixes n W1 H1 :: int
  assumes f: "bpp b = n" "img_width b = W1" "img_height b = H1" "length (data b) = L"
    and n: "n = 3 \<or> n = 4"
    and bc: "uint (bit_count (bmp_info_header b)) = 8 * bpp b"
    and W: "0 \<le> W1" "W1 \<le> 65535" "(W1 div 2) mod 4 = 0"
    and H: "0 \<le> H1" "H1 \<le> 65535"
    and src: "uint (row_stride b) * H1 + W1 * n < int L" "uint (row_stride b) * H1 < 2 ^ 32"
    and dst: "(W1 div 2) * n * (H1 div 2) + W1 * n < int L" "(W1 div 2) * n * (H1 div 2) < 2 ^ 32"
  shows "\<exists>d. scaleDown b = Some (Ok ((scaled_header b (W1 div 2) (H1 div 2))\<lparr>data := d\<rparr>))
           \<and> length d = L"
proof -
  let ?b' = "scaled_header b (W1 div 2) (H1 div 2)"
  have w2: "0 \<le> W1 div 2" "W1 div 2 \<le> 65535" using W by simp_all
  have h2: "0 \<le> H1 div 2" "H1 div 2 \<le> 65535" using H by simp_all
  note hd = scale_header_ok[OF n[folded f(1)] bc w2 W(3) h2]
  have g: "bpp ?b' = n" "img_width ?b' = W1 div 2" "uint (row_stride ?b') = (W1 div 2) * n"
    using hd(2,4,5) f(1) by simp_all
  have "\<exists>s'. while_loop (\<lambda>y :: 16 word. uint y < H1) (\<lambda>y. y + 1) (scaleDown_row ?b' b) 0
                (0, 0, data b) = Some (Ok s')
            \<and> (uint (fst s') = H1 div 2 \<and> length (snd (snd s')) = L)"
  proof (rule for_word_total[where I = "\<lambda>y s. uint (fst s) = y div 2 \<and> length (snd (snd s)) = L"])
    show "0 \<le> H1" "H1 < 2 ^ LENGTH(16)" using H by simp_all
    show "uint (fst (0 :: 16 word, 0 :: 16 word, data b)) = 0 div 2
        \<and> length (snd (snd (0 :: 16 word, 0 :: 16 word, data b))) = L"
      using f(4) by simp
  next
    fix y :: int and s :: "16 word \<times> 16 word \<times> 8 word list"
    assume y: "0 \<le> y" "y < H1" and s: "uint (fst s) = y div 2 \<and> length (snd (snd s)) = L"
    obtain r c d where rcd: "s = (r, c, d)" by (cases s) auto
    have uy: "uint (word_of_int y :: 16 word) = y"
      using y H by (simp add: uint_word_of_int mod_pos_pos_trivial)
    have yy: "uint (word_of_int y :: 16 word) < H1" using uy y by simp
    have r: "uint r = uint (word_of_int y :: 16 word) div 2" and d: "length d = L"
      using s rcd uy by simp_all
    from scaleDown_row_ok[OF g f(2,4) n W(1,2) refl yy H(2) r d src dst, of c]
    obtain r' c' d' where "scaleDown_row ?b' b (word_of_int y) (r, c, d) = Some (Ok (r', c', d'))"
      "length d' = L" "uint r' = (y + 1) div 2"
      using uy by auto
    then show "\<exists>s'. scaleDown_row ?b' b (word_of_int y) s = Some (Ok s') \<and>
        (uint (fst s') = (y + 1) div 2 \<and> length (snd (snd s')) = L)"
      using rcd by simp
  qed
  then obtain r' c' d' where run: "while_loop (\<lambda>y :: 16 word. uint y < H1) (\<lambda>y. y + 1)
      (scaleDown_row ?b' b) 0 (0, 0, data b) = Some (Ok (r', c', d'))" and d': "length d' = L"
    by auto
  have sd: "W1 sdiv 2 = W1 div 2" "H1 sdiv 2 = H1 div 2" using W H by (simp_all add: sdiv_nonneg)
  have "scaleDown b = Some (Ok (?b'\<lparr>data := d'\<rparr>))"
    using run hd(1) by (simp add: scaleDown_def f(2,3) sd)
  with d' show ?thesis by blast
qed

text \<open>
  The width after a call that returns: \<open>scaleUp\<close> gives \<open>2 * width + (2 * width) % 4\<close> and
  \<open>scaleDown\<close> gives \<open>width / 2 + (width / 2) % 4\<close>.  With these, a positive width that is
  not a multiple of 4 never comes back from \<open>scaleUp\<close> followed by \<open>scaleDown\<close>.
\<close>

lemma scale_header_width:
  assumes "scale_header b w h = Some (Ok b')"
  shows "img_width b' = w + w smod 4"
proof -
  from assms obtain w' where w': "ck_int (w + w smod 4) = Some (Ok w')"
    and r: "bindR (ck_int (w' * uint (bit_count (bmp_info_header b)))) (\<lambda>bits.
       Some (Ok (b\<lparr>bmp_info_header := (bmp_info_header b)\<lparr>width := word_of_int w',
                       height := word_of_int h\<rparr>,
                    row_stride := word_of_int (bits sdiv 8)\<rparr>))) = Some (Ok b')"
    unfolding scale_header_def by (rule bindR_Ok)
  from r obtain bits where
    "Some (Ok (b\<lparr>bmp_info_header := (bmp_info_header b)\<lparr>width := word_of_int w',
                       height := word_of_int h\<rparr>,
                    row_stride := word_of_int (bits sdiv 8)\<rparr>)) = Some (Ok b')"
    by (rule bindR_Ok)
  then have "img_width b' = sint (word_of_int w' :: 32 word)"
    by (auto simp: img_width_def)
  moreover from ck_int_Ok[OF w'] have "w' = w + w smod 4" "- (2 ^ 31) \<le> w'" "w' < 2 ^ 31"
    by simp_all
  ultimately show ?thesis using sint32_signed[of w'] by simp
qed

lemma scaleUp_width:
  assumes "scaleUp b = Some (Ok b1)"
  shows "img_width b1 = img_width b * 2 + (img_width b * 2) smod 4"
proof -
  from assms obtain w where w: "ck_int (img_width b * 2) = Some (Ok w)"
    and r: "bindR (ck_int (img_height b * 2)) (\<lambda>h.
     bindR (scale_header b w h) (\<lambda>b'.
     bindR (while_loop (\<lambda>y :: 16 word. uint y < img_height b) (\<lambda>y. y + 1)
              (\<lambda>y. while_loop (\<lambda>rCount :: 16 word. uint rCount < 2) (\<lambda>rCount. rCount + 1)
                       (\<lambda>rCount. scaleUp_row b' (data b)
                                    (row_offset (row_stride b) (uint y))) 0)
              0 (0, data b)) (\<lambda>rd.
       Some (Ok (b'\<lparr>data := snd rd\<rparr>))))) = Some (Ok b1)"
    unfolding scaleUp_def by (rule bindR_Ok)
  from r obtain h b' and rd :: "32 word \<times> 8 word list" where
    hd: "scale_header b w h = Some (Ok b')"
    and b1: "Some (Ok (b'\<lparr>data := snd rd\<rparr>)) = Some (Ok b1)"
    by (elim bindR_Ok)
  from b1 have "img_width b1 = img_width b'" by (auto simp: img_width_def)
  with scale_header_width[OF hd] ck_int_Ok[OF w] show ?thesis by simp
qed

lemma scaleDown_width:
  assumes "scaleDown b = Some (Ok b2)"
  shows "img_width b2 = img_width b sdiv 2 + (img_width b sdiv 2) smod 4"
proof -
  from assms obtain b' and st :: "16 word \<times> 16 word \<times> 8 word list" where
    hd: "scale_header b (img_width b sdiv 2) (img_height b sdiv 2) = Some (Ok b')"
    and b2: "(case st of (r, c, d) \<Rightarrow> Some (Ok (b'\<lparr>data := d\<rparr>))) = Some (Ok b2)"
    unfolding scaleDown_def by (elim bindR_Ok)
  from b2 have "img_width b2 = img_width b'" by (auto simp: img_width_def split: prod.splits)
  with scale_header_width[OF hd] show ?thesis by simp
qed

lemma width_changes:
  fixes W :: int
  assumes "0 < W" "W mod 4 \<noteq> 0"
  shows "(2 * W + (2 * W) mod 4) div 2 + ((2 * W + (2 * W) mod 4) div 2) mod 4 \<noteq> W"
proof (cases "W mod 2 = 0")
  case True
  then have m: "W mod 4 = 2" using assms(2) by presburger
  have a: "(2 * W) mod 4 = 0" using True by presburger
  show ?thesis by (simp add: a m)
next
  case False
  then have a: "(2 * W) mod 4 = 2" by presburger
  have b: "(2 * W + 2) div 2 = W + 1" by simp
  have c: "0 \<le> (W + 1) mod 4" by simp
  have "W + 1 + (W + 1) mod 4 \<noteq> W" using c by linarith
  then show ?thesis by (simp only: a b not_False_eq_True)
qed

lemma scale_round_trip_needs_width_multiple_of_4:
  assumes w: "0 < img_width b" "img_width b mod 4 \<noteq> 0"
    and up: "scaleUp b = Some (Ok b1)" and down: "scaleDown b1 = Some (Ok b2)"
  shows "img_width b2 \<noteq> img_width b"
proof -
  define W where "W = img_width b"
  have W: "0 < W" "W mod 4 \<noteq> 0" using w by (simp_all add: W_def)
  have w1: "img_width b1 = 2 * W + (2 * W) mod 4"
    using scaleUp_width[OF up] W(1) by (simp add: W_def smod_nonneg mult.commute)
  have p1: "0 \<le> img_width b1" using w1 W(1) by simp
  have p2: "0 \<le> img_width b1 div 2" using p1 by simp
  have w2: "img_width b2 = img_width b1 div 2 + (img_width b1 div 2) mod 4"
    using scaleDown_width[OF down] p1 p2 by (simp add: smod_nonneg sdiv_nonneg)
  have "img_width b2 \<noteq> W" unfolding w2 w1 by (rule width_changes[OF W])
  then show ?thesis by (simp add: W_def)
qed

text \<open>
  Claim C9, as amended.  On a bitmap that meets \<open>scalable\<close> and whose width is a multiple of
  4, \<open>scaleUp\<close> returns with the width \<open>2 * width + (2 * width) % 4\<close>, \<open>scaleDown\<close> returns
  on its result with the width \<open>width / 2 + (width / 2) % 4\<close>, and the width and height
  fields are those of the original bitmap.  Nothing is said of the other widths, nor of the
  bitmaps outside \<open>scalable\<close>, among them those whose doubled dimensions exceed the 16-bit
  loop counters.
\<close>

theorem scale_round_trip_dimensions:
  assumes s: "scalable b" and w4: "img_width b mod 4 = 0"
  shows "\<exists>b1 b2. scaleUp b = Some (Ok b1) \<and> scaleDown b1 = Some (Ok b2) \<and>
           img_width b1 = img_width b * 2 + (img_width b * 2) smod 4 \<and>
           img_width b2 = img_width b1 sdiv 2 + (img_width b1 sdiv 2) smod 4 \<and>
           width (bmp_info_header b2) = width (bmp_info_header b) \<and>
           height (bmp_info_header b2) = height (bmp_info_header b)"
proof -
  define W where "W = img_width b"
  define H where "H = img_height b"
  define n where "n = bpp b"
  define L where "L = length (data b)"
  have n: "n = 3 \<or> n = 4" and bc: "uint (bit_count (bmp_info_header b)) = 8 * bpp b"
    and W: "0 < W" "2 * W \<le> 65535" and H: "0 < H" "2 * H \<le> 65535"
    and Lb: "9 * (W * n * H) \<le> int L" "4 * (W * n * H) < 2 ^ 32"
    using s by (simp_all add: scalable_def W_def H_def n_def L_def)
  have even: "img_width b mod 2 = 0" using w4 by presburger
  from scaleUp_ok[OF s even] obtain d1 where
    up: "scaleUp b = Some (Ok ((scaled_header b (2 * W) (2 * H))\<lparr>data := d1\<rparr>))"
    and d1: "length d1 = L" by (auto simp: W_def H_def L_def)
  let ?b1 = "(scaled_header b (2 * W) (2 * H))\<lparr>data := d1\<rparr>"
  have w4': "(2 * W) mod 4 = 0" using w4 unfolding W_def by presburger
  note hd = scale_header_ok[OF n[unfolded n_def] bc _ W(2) w4' _ H(2)]
  have f: "bpp ?b1 = n" "img_width ?b1 = 2 * W" "img_height ?b1 = 2 * H" "length (data ?b1) = L"
    "uint (row_stride ?b1) = 2 * W * n" "uint (bit_count (bmp_info_header ?b1)) = 8 * bpp ?b1"
    using hd(2,3,4,5,8) W H d1
    by (simp_all add: n_def img_width_def img_height_def bpp_def)
  have A: "0 < W * n" using W n by auto
  have AH: "W * n \<le> W * n * H" using A H by (simp add: mult_le_cancel_left1)
  have L2: "4 * (W * n * H) < 4294967296" using Lb(2) by simp
  have src: "uint (row_stride ?b1) * (2 * H) + 2 * W * n < int L"
    "uint (row_stride ?b1) * (2 * H) < 2 ^ 32"
    using f(5) A AH Lb(1) L2 by (simp_all add: algebra_simps; linarith)+
  have dst: "((2 * W) div 2) * n * ((2 * H) div 2) + 2 * W * n < int L"
    "((2 * W) div 2) * n * ((2 * H) div 2) < 2 ^ 32"
    using A AH Lb(1) L2 by (simp_all add: algebra_simps; linarith)+
  have m: "((2 * W) div 2) mod 4 = 0" using w4 by (simp add: W_def)
  from scaleDown_ok[OF f(1,2,3,4) n f(6) _ W(2) m _ H(2) src dst] W H obtain d2 where
    down: "scaleDown ?b1 = Some (Ok ((scaled_header ?b1 ((2 * W) div 2) ((2 * H) div 2))\<lparr>data := d2\<rparr>))"
    by auto
  let ?b2 = "(scaled_header ?b1 ((2 * W) div 2) ((2 * H) div 2))\<lparr>data := d2\<rparr>"
  have "width (bmp_info_header ?b2) = word_of_int W" "height (bmp_info_header ?b2) = word_of_int H"
    by (simp_all add: scaled_header_def)
  then have wh: "width (bmp_info_header ?b2) = width (bmp_info_header b)"
    "height (bmp_info_header ?b2) = height (bmp_info_header b)"
    by (simp_all add: W_def H_def img_width_def img_height_def)
  show ?thesis
    by (intro exI[of _ ?b1] exI[of _ ?b2] conjI up down scaleUp_width[OF up]
        scaleDown_width[OF down] wh)
qed

theorem scale_round_trip_dimensions_witness:
  "scalable sample_4x1 \<and> img_width sample_4x1 mod 4 = 0 \<and>
   (\<exists>b1 b2. scaleUp sample_4x1 = Some (Ok b1) \<and> scaleDown b1 = Some (Ok b2) \<and>
      img_width b1 = img_width sample_4x1 * 2 + (img_width sample_4x1 * 2) smod 4 \<and>
      img_width b2 = img_width b1 sdiv 2 + (img_width b1 sdiv 2) smod 4 \<and>
      width (bmp_info_header b2) = width (bmp_info_header sample_4x1) \<and>
      height (bmp_info_header b2) = height (bmp_info_header sample_4x1))"
proof -
  have s: "scalable sample_4x1"
    by (simp add: scalable_def sample_4x1_def bpp_def img_width_def img_height_def
        BMPInfoHeader_init_def)
  have w: "img_width sample_4x1 mod 4 = 0"
    by (simp add: sample_4x1_def img_width_def BMPInfoHeader_init_def)
  from scale_round_trip_dimensions[OF s w] s w show ?thesis by blast
qed

text \<open>
  Claim C9, as stated, fails where the width is not a multiple of 4: on the 2 by 1 image
  \<open>scaleUp\<close> gives width \<open>4 + 4 % 4 = 4\<close> and \<open>scaleDown\<close> then gives \<open>2 + 2 % 4 = 4\<close>.
\<close>

theorem scale_round_trip_changes_width:
  "dimensions (Some (Ok sample_2x1)) = Some (2, 1) \<and>
   dimensions (bindR (scaleUp sample_2x1) scaleDown) = Some (4, 1)"
  by code_simp

section \<open>Decoding\<close>


text \<open>
  Claim C2, as stated, fails: decoding the 1 by 1 image of 24 bits per pixel leaves
  \<open>row_stride = 3\<close>, which is not a multiple of 4.
\<close>

theorem decode_row_stride_unpadded:
  "map_option row_stride (decoded (decode (istream_open stream_1x1) Bitmap_init)) = Some 3 \<and>
   map_option stride_invariant (decoded (decode (istream_open stream_1x1) Bitmap_init))
     = Some False"
  by code_simp

lemma stride_loop_4:
  "(uint ns + 3) div 4 * 4 < 2 ^ 32 \<Longrightarrow> uint (stride_loop 4 ns) = (uint ns + 3) div 4 * 4"
proof (induction "4 :: 32 word" ns rule: stride_loop.induct)
  case (1 ns)
  have m: "uint (ns mod 4) = uint ns mod 4" by (simp add: uint_mod)
  show ?case
  proof (cases "ns mod 4 = 0")
    case True
    then have "uint ns mod 4 = 0" using m by simp
    then have "(uint ns + 3) div 4 * 4 = uint ns" by presburger
    then show ?thesis using True by simp
  next
    case False
    then have nz: "uint ns mod 4 \<noteq> 0" using m by (metis uint_0_iff)
    have p: "0 \<le> uint ns" by simp
    have up: "(uint ns + 1 + 3) div 4 * 4 = (uint ns + 3) div 4 * 4" using nz by presburger
    have "uint ns + 1 \<le> (uint ns + 3) div 4 * 4" using nz p by presburger
    then have "uint ns + 1 < 2 ^ 32" using "1.prems" by simp
    then have u: "uint (ns + 1) = uint ns + 1"
      by (simp add: uint_word_ariths mod_pos_pos_trivial)
    have "uint (stride_loop 4 (ns + 1)) = (uint (ns + 1) + 3) div 4 * 4"
      using False "1.prems" u up by (intro "1.hyps") simp_all
    then show ?thesis using False u up by simp
  qed
qed

lemma read_pixels_unaligned:
  assumes r: "read_pixels b s = Some (Ok (Returned b' s'))"
    and w: "img_width b smod 4 \<noteq> 0"
  shows "bmp_info_header b' = bmp_info_header b \<and> imageType b' = imageType b \<and>
         row_stride b' = word_of_int ((img_width b * uint (bit_count (bmp_info_header b))) sdiv 8) \<and>
         img_width b * uint (bit_count (bmp_info_header b)) < 2 ^ 31"
proof -
  from r w obtain bits where
    ck: "ck_int (img_width b * uint (bit_count (bmp_info_header b))) = Some (Ok bits)"
    and rest: "(let b = b\<lparr>row_stride := word_of_int (bits sdiv 8)\<rparr> in
          bindR (make_stride_aligned b 4) (\<lambda>new_stride.
            let padding = unat (new_stride - row_stride b) in
            bindR (while_loop (\<lambda>y. y < img_height b) (\<lambda>y. y + 1) (read_row b padding) 0
                     (data b, s)) (\<lambda>(d, s1).
              let fh = file_header b
              in Some (Ok (Returned
                   (b\<lparr>data := d,
                      file_header := fh\<lparr>file_size := file_size fh + (word_of_nat (length d)
                          + height (bmp_info_header b) * word_of_nat padding)\<rparr>\<rparr>)
                   s1))))) = Some (Ok (Returned b' s'))"
    unfolding read_pixels_def by (auto elim!: bindR_Ok)
  from ck_int_Ok[OF ck] have bits: "bits = img_width b * uint (bit_count (bmp_info_header b))"
    and lt: "img_width b * uint (bit_count (bmp_info_header b)) < 2 ^ 31" by simp_all
  from rest have "bmp_info_header b' = bmp_info_header b \<and> imageType b' = imageType b \<and>
         row_stride b' = word_of_int (bits sdiv 8)"
    unfolding Let_def by (auto elim!: bindR_Ok split: prod.splits)
  with bits lt show ?thesis by simp
qed

lemma read_headers_not_Returned: "read_headers s b \<noteq> Inl (Returned b' s')"
  unfolding read_headers_def Let_def
  by (auto split: if_splits prod.splits)

lemma decode_Returned:
  assumes "decode s b0 = Some (Ok (Returned b s'))"
  obtains bm sm where "read_pixels bm sm = Some (Ok (Returned b s'))"
    "imageType bm = bit_count (bmp_info_header bm) div 8"
proof -
  from assms obtain bh sh where h: "read_headers s b0 = Inr (bh, sh)"
    and r: "bindR (buffer_size (adjust_headers bh)) (\<lambda>n.
              if n < 0 then Some (Ok (Threw_length_error (adjust_headers bh)
                   (istream_seekg (unat (offset_data (file_header bh))) sh)))
              else read_pixels ((adjust_headers bh)\<lparr>data := resize (nat n) (data (adjust_headers bh))\<rparr>)
                   (istream_seekg (unat (offset_data (file_header bh))) sh))
            = Some (Ok (Returned b s'))"
    unfolding decode_def Let_def
    by (auto split: if_splits sum.splits simp: read_headers_not_Returned)
  from r obtain n where
    rp: "read_pixels ((adjust_headers bh)\<lparr>data := resize (nat n) (data (adjust_headers bh))\<rparr>)
          (istream_seekg (unat (offset_data (file_header bh))) sh) = Some (Ok (Returned b s'))"
    by (auto elim!: bindR_Ok split: if_splits)
  have "imageType bh = bit_count (bmp_info_header bh) div 8"
    using h unfolding read_headers_def Let_def
    by (auto split: if_splits prod.splits)
  then have "imageType ((adjust_headers bh)\<lparr>data := resize (nat n) (data (adjust_headers bh))\<rparr>)
      = bit_count (bmp_info_header
          ((adjust_headers bh)\<lparr>data := resize (nat n) (data (adjust_headers bh))\<rparr>)) div 8"
    by (simp add: adjust_headers_def Let_def)
  with rp show ?thesis by (rule that)
qed

lemma read_pixels_width:
  assumes "read_pixels b s = Some (Ok (Returned b' s'))"
  shows "bmp_info_header b' = bmp_info_header b \<and> imageType b' = imageType b"
  using assms unfolding read_pixels_def Let_def
  by (auto elim!: bindR_Ok split: if_splits prod.splits)

text \<open>
  Claim C2, as amended.  For every bitmap a decode returns whose width is positive and
  not a multiple of 4, \<open>row_stride\<close> is the unpadded length of a row,
  \<open>width * bit_count / 8\<close>, which is at least \<open>width * bytes_per_pixel\<close>; and the stride
  that \<open>make_stride_aligned(4)\<close> computes from it, which the codec uses for the rows of the
  stream, is a multiple of 4, at least \<open>row_stride\<close> and less than \<open>row_stride + 4\<close>.
\<close>

theorem decode_row_stride:
  assumes d: "decode s b0 = Some (Ok (Returned b s'))"
    and w: "0 < img_width b" "img_width b mod 4 \<noteq> 0"
  shows "uint (row_stride b) = (img_width b * uint (bit_count (bmp_info_header b))) div 8 \<and>
         img_width b * bpp b \<le> uint (row_stride b) \<and>
         (\<exists>a. make_stride_aligned b 4 = Some (Ok a) \<and> uint a mod 4 = 0 \<and>
              uint (row_stride b) \<le> uint a \<and> uint a < uint (row_stride b) + 4)"
proof -
  from d obtain bm sm where rp: "read_pixels bm sm = Some (Ok (Returned b s'))"
    and it: "imageType bm = bit_count (bmp_info_header bm) div 8" by (rule decode_Returned)
  from read_pixels_width[OF rp] have same: "bmp_info_header b = bmp_info_header bm"
    "imageType b = imageType bm" by simp_all
  have wm: "img_width bm = img_width b" using same by (simp add: img_width_def)
  have sm: "img_width bm smod 4 \<noteq> 0" using w wm by (simp add: smod_nonneg)
  define bits where "bits = img_width b * uint (bit_count (bmp_info_header b))"
  from read_pixels_unaligned[OF rp sm] have
    rs: "row_stride b = word_of_int (bits sdiv 8)" and lt: "bits < 2 ^ 31"
    using wm same by (simp_all add: bits_def)
  have b0: "0 \<le> bits" using w by (simp add: bits_def)
  have sd: "bits sdiv 8 = bits div 8" using b0 by (simp add: sdiv_nonneg)
  have "0 \<le> bits div 8" "bits div 8 < 2 ^ 32" using b0 lt by simp_all
  then have u: "uint (row_stride b) = bits div 8" unfolding rs sd by (rule uint32_small)
  have "bpp b = uint (bit_count (bmp_info_header b)) div 8"
    using it same by (simp add: bpp_def uint_div)
  then have "8 * bpp b \<le> uint (bit_count (bmp_info_header b))" by simp
  then have "img_width b * (8 * bpp b) \<le> img_width b * uint (bit_count (bmp_info_header b))"
    using w(1) by (intro mult_left_mono) simp_all
  then have "8 * (img_width b * bpp b) \<le> bits" by (simp only: bits_def ac_simps)
  then have ge: "img_width b * bpp b \<le> bits div 8" by linarith
  have lt': "bits < 2147483648" using lt by simp
  have "(bits div 8 + 3) div 4 * 4 < 4294967296" using lt' b0 by linarith
  then have fit: "(uint (row_stride b) + 3) div 4 * 4 < 2 ^ 32" using u by simp
  from stride_loop_4[OF fit] have a: "uint (stride_loop 4 (row_stride b))
      = (uint (row_stride b) + 3) div 4 * 4" .
  define r where "r = uint (row_stride b)"
  have "((r + 3) div 4 * 4) mod 4 = 0" "r \<le> (r + 3) div 4 * 4" "(r + 3) div 4 * 4 < r + 4"
    by presburger+
  then have al: "uint (stride_loop 4 (row_stride b)) mod 4 = 0"
    "uint (row_stride b) \<le> uint (stride_loop 4 (row_stride b))"
    "uint (stride_loop 4 (row_stride b)) < uint (row_stride b) + 4"
    unfolding a r_def by simp_all
  have ms: "make_stride_aligned b 4 = Some (Ok (stride_loop 4 (row_stride b)))"
    by (simp add: make_stride_aligned_def)
  have u': "uint (row_stride b) = img_width b * uint (bit_count (bmp_info_header b)) div 8"
    using u by (simp only: bits_def)
  have ge': "img_width b * bpp b \<le> uint (row_stride b)" using ge u by simp
  show ?thesis
  proof (intro conjI exI[of _ "stride_loop 4 (row_stride b)"])
    show "uint (row_stride b) = img_width b * uint (bit_count (bmp_info_header b)) div 8"
      by (rule u')
    show "img_width b * bpp b \<le> uint (row_stride b)" by (rule ge')
    show "make_stride_aligned b 4 = Some (Ok (stride_loop 4 (row_stride b)))" by (rule ms)
    show "uint (stride_loop 4 (row_stride b)) mod 4 = 0" by (rule al(1))
    show "uint (row_stride b) \<le> uint (stride_loop 4 (row_stride b))" by (rule al(2))
    show "uint (stride_loop 4 (row_stride b)) < uint (row_stride b) + 4" by (rule al(3))
  qed
qed

theorem decode_row_stride_witness:
  "decode (istream_open stream_1x1) Bitmap_init
     = Some (Ok (Returned sample_1x1 \<lparr>content = stream_1x1, gpos = 58, failed = False\<rparr>)) \<and>
   0 < img_width sample_1x1 \<and> img_width sample_1x1 mod 4 \<noteq> 0 \<and>
   (uint (row_stride sample_1x1)
      = (img_width sample_1x1 * uint (bit_count (bmp_info_header sample_1x1))) div 8 \<and>
    img_width sample_1x1 * bpp sample_1x1 \<le> uint (row_stride sample_1x1) \<and>
    (\<exists>a. make_stride_aligned sample_1x1 4 = Some (Ok a) \<and> uint a mod 4 = 0 \<and>
         uint (row_stride sample_1x1) \<le> uint a \<and> uint a < uint (row_stride sample_1x1) + 4))"
proof -
  have d: "decode (istream_open stream_1x1) Bitmap_init
     = Some (Ok (Returned sample_1x1 \<lparr>content = stream_1x1, gpos = 58, failed = False\<rparr>))"
    by code_simp
  have w: "0 < img_width sample_1x1" "img_width sample_1x1 mod 4 \<noteq> 0"
    by (simp_all add: img_width_def sample_1x1_def BMPInfoHeader_init_def)
  show ?thesis
    by (rule conjI[OF d conjI[OF w(1) conjI[OF w(2) decode_row_stride[OF d w]]]])
qed

section \<open>Decoding, encoding and decoding again\<close>

lemma length_to_le [simp]: "length (to_le k w) = k"
  by (induction k arbitrary: w) auto

lemma of_le_to_le: "(of_le (to_le k w) :: 'a::len word) = take_bit (8 * k) w"
proof (induction k arbitrary: w)
  case 0
  then show ?case by simp
next
  case (Suc k)
  show ?case
    apply (simp add: Suc)
    apply (rule bit_word_eqI)
    apply (auto simp: bit_simps)
    done
qed

lemma le16 [simp]: "of_le (to_le 2 (w :: 16 word)) = w"
  using of_le_to_le[of 2 w] by (simp add: take_bit_word_eq_self)

lemma le32 [simp]: "of_le (to_le 4 (w :: 32 word)) = w"
  using of_le_to_le[of 4 w] by (simp add: take_bit_word_eq_self)

lemma length_BMPFileHeader_bytes [simp]: "length (BMPFileHeader_bytes h) = 14"
  by (simp add: BMPFileHeader_bytes_def)

lemma length_BMPInfoHeader_bytes [simp]: "length (BMPInfoHeader_bytes h) = 40"
  by (simp add: BMPInfoHeader_bytes_def)

lemma length_concat_le: "length (concat (map (\<lambda>i. to_le 4 (f i :: 32 word)) xs)) = 4 * length xs"
  by (induction xs) auto

lemma length_BMPColorHeader_bytes [simp]: "length (BMPColorHeader_bytes h) = 84"
  by (simp add: BMPColorHeader_bytes_def length_concat_le)

lemma BMPFileHeader_roundtrip [simp]: "BMPFileHeader_of_bytes (BMPFileHeader_bytes h) = h"
  by (simp add: BMPFileHeader_of_bytes_def BMPFileHeader_bytes_def)

lemma BMPInfoHeader_roundtrip [simp]: "BMPInfoHeader_of_bytes (BMPInfoHeader_bytes h) = h"
  by (simp add: BMPInfoHeader_of_bytes_def BMPInfoHeader_bytes_def)

lemma take_drop_concat_blocks:
  assumes "\<forall>x \<in> set xs. length (f x) = m" "i < length xs"
  shows "take m (drop (m * i) (concat (map f xs))) = f (xs ! i)"
  using assms
proof (induction xs arbitrary: i)
  case Nil
  then show ?case by simp
next
  case (Cons x xs)
  show ?case
  proof (cases i)
    case 0
    then show ?thesis using Cons.prems by simp
  next
    case (Suc j)
    then have "take m (drop (m * j) (concat (map f xs))) = f (xs ! j)"
      using Cons.prems by (intro Cons.IH) auto
    then show ?thesis using Suc Cons.prems by simp
  qed
qed

lemma length_concat_blocks:
  assumes "\<forall>x \<in> set xs. length (f x) = m"
  shows "length (concat (map f xs)) = m * length xs"
  using assms by (induction xs) auto

lemma BMPColorHeader_roundtrip:
  assumes "length (unused h) = 16"
  shows "BMPColorHeader_of_bytes (BMPColorHeader_bytes h) = h"
proof -
  let ?f = "\<lambda>i. to_le 4 (unused h ! i)"
  have u: "of_le (take 4 (drop (20 + 4 * i) (BMPColorHeader_bytes h))) = unused h ! i"
    if "i < 16" for i
  proof -
    have "drop (20 + 4 * i) (BMPColorHeader_bytes h) = drop (4 * i) (concat (map ?f [0..<16]))"
      by (simp add: BMPColorHeader_bytes_def)
    moreover have "take 4 (drop (4 * i) (concat (map ?f [0..<16]))) = ?f ([0..<16] ! i)"
      using that by (intro take_drop_concat_blocks) simp_all
    ultimately show ?thesis using that by simp
  qed
  have "map (\<lambda>i. of_le (take 4 (drop (20 + 4 * i) (BMPColorHeader_bytes h))) :: 32 word) [0..<16]
      = map (\<lambda>i. unused h ! i) [0..<16]"
    by (rule map_cong) (simp_all add: u)
  also have "\<dots> = unused h" using assms map_nth[of "unused h"] by simp
  finally have un: "map (\<lambda>i. of_le (take 4 (drop (20 + 4 * i) (BMPColorHeader_bytes h))) :: 32 word)
      [0..<16] = unused h" .
  have rest: "of_le (take 4 (BMPColorHeader_bytes h)) = red_mask h"
    "of_le (take 4 (drop 4 (BMPColorHeader_bytes h))) = green_mask h"
    "of_le (take 4 (drop 8 (BMPColorHeader_bytes h))) = blue_mask h"
    "of_le (take 4 (drop 12 (BMPColorHeader_bytes h))) = alpha_mask h"
    "of_le (take 4 (drop 16 (BMPColorHeader_bytes h))) = color_space_type h"
    by (simp_all add: BMPColorHeader_bytes_def)
  show ?thesis
    unfolding BMPColorHeader_of_bytes_def un rest by simp
qed

lemma length_unused_of_bytes [simp]: "length (unused (BMPColorHeader_of_bytes bs)) = 16"
  by (simp add: BMPColorHeader_of_bytes_def)

lemma overlay_full: "length bytes = length object \<Longrightarrow> overlay bytes object = bytes"
  by (simp add: overlay_def)

lemma istream_read_enough:
  assumes "\<not> failed s" "gpos s + n \<le> length (content s)"
  shows "istream_read n s = (take n (drop (gpos s) (content s)), s\<lparr>gpos := gpos s + n\<rparr>)"
  using assms by (simp add: istream_read_def Let_def)

lemma bit_count_32: "(bit_count h = 32) = (uint (bit_count h) = 32)"
  by (simp add: word_uint_eq_iff)

lemma read_headers_well_formed:
  assumes wf: "well_formed_headers bs"
  shows "read_headers (istream_open bs) Bitmap_init =
           Inr (parsed_headers bs,
                \<lparr>content = bs,
                 gpos = (if bit_count (bmp_info_header (parsed_headers bs)) = 32 then 138 else 54),
                 failed = False\<rparr>)"
proof -
  let ?ih = "BMPInfoHeader_of_bytes (take 40 (drop 14 bs))"
  have len: "54 \<le> length bs" using wf by (simp add: well_formed_headers_def Let_def)
  have ft: "file_type (BMPFileHeader_of_bytes (take 14 bs)) = 0x4D42"
    using wf by (simp add: well_formed_headers_def parsed_headers_def Let_def)
  have r1: "istream_read 14 (istream_open bs) = (take 14 bs, \<lparr>content = bs, gpos = 14, failed = False\<rparr>)"
    using len by (simp add: istream_read_def istream_open_def Let_def)
  have r2: "istream_read 40 \<lparr>content = bs, gpos = 14, failed = False\<rparr>
      = (take 40 (drop 14 bs), \<lparr>content = bs, gpos = 54, failed = False\<rparr>)"
    using len by (simp add: istream_read_def Let_def)
  have o1: "overlay (take 14 bs) (BMPFileHeader_bytes h) = take 14 bs" for h
    using len by (intro overlay_full) simp
  have o2: "overlay (take 40 (drop 14 bs)) (BMPInfoHeader_bytes h) = take 40 (drop 14 bs)" for h
    using len by (intro overlay_full) simp
  show ?thesis
  proof (cases "bit_count ?ih = 32")
    case False
    then show ?thesis
      using ft by (simp add: read_headers_def r1 r2 o1 o2 Let_def parsed_headers_def Bitmap_init_def)
  next
    case True
    then have "uint (bit_count (bmp_info_header (parsed_headers bs))) = 32"
      by (simp add: parsed_headers_def Let_def)
    then have sz: "124 \<le> size_field ?ih" and len2: "138 \<le> length bs"
      using wf by (simp_all add: well_formed_headers_def parsed_headers_def Let_def)
    have r3: "istream_read 84 \<lparr>content = bs, gpos = 54, failed = False\<rparr>
        = (take 84 (drop 54 bs), \<lparr>content = bs, gpos = 138, failed = False\<rparr>)"
      using len2 by (simp add: istream_read_def Let_def)
    have o3: "overlay (take 84 (drop 54 bs)) (BMPColorHeader_bytes h) = take 84 (drop 54 bs)" for h
      using len2 by (intro overlay_full) simp
    show ?thesis
      using ft True sz
      by (simp add: read_headers_def r1 r2 r3 o1 o2 o3 Let_def parsed_headers_def Bitmap_init_def)
  qed
qed

lemma buffer_size_ok:
  assumes w: "0 < img_width b" and h: "0 < img_height b"
    and bits: "0 < uint (bit_count (bmp_info_header b))"
    and lt: "img_width b * 3 * 3 * img_height b * uint (bit_count (bmp_info_header b)) < 2 ^ 31"
  shows "buffer_size b = Some (Ok (int (buffer_len b)))"
proof -
  let ?W = "img_width b" and ?H = "img_height b" and ?c = "uint (bit_count (bmp_info_header b))"
  have p: "0 < ?W * 3 * 3" using w by simp
  have 1: "?W * 3 * 3 \<le> ?W * 3 * 3 * ?H" using p h by (simp add: mult_le_cancel_left1)
  have p2: "0 < ?W * 3 * 3 * ?H" using p h by simp
  have 2: "?W * 3 * 3 * ?H \<le> ?W * 3 * 3 * ?H * ?c" using p2 bits by (simp add: mult_le_cancel_left1)
  have lt': "?W * 3 * 3 * ?H * ?c < 2147483648" using lt by simp
  have a: "?W * 3 < 2147483648" "?W * 3 * 3 < 2147483648" "?W * 3 * 3 * ?H < 2147483648"
    using 1 2 lt' w by linarith+
  have b: "- 2147483648 \<le> ?W * 3" "- 2147483648 \<le> ?W * 3 * 3" "- 2147483648 \<le> ?W * 3 * 3 * ?H"
    "- 2147483648 \<le> ?W * 3 * 3 * ?H * ?c"
    using 1 2 w p p2 by linarith+
  have nn: "0 \<le> ?W * 3 * 3 * ?H * ?c" using 2 p2 by linarith
  have c1: "ck_int (?W * 3) = Some (Ok (?W * 3))"
    unfolding ck_int_def using a(1) b(1) by simp
  have c2: "ck_int (?W * 3 * 3) = Some (Ok (?W * 3 * 3))"
    unfolding ck_int_def using a(2) b(2) by simp
  have c3: "ck_int (?W * 3 * 3 * ?H) = Some (Ok (?W * 3 * 3 * ?H))"
    unfolding ck_int_def using a(3) b(3) by simp
  have c4: "ck_int (?W * 3 * 3 * ?H * ?c) = Some (Ok (?W * 3 * 3 * ?H * ?c))"
    unfolding ck_int_def using lt' b(4) by simp
  have sd: "(?W * 3 * 3 * ?H * ?c) sdiv 8 = (?W * 3 * 3 * ?H * ?c) div 8"
    using nn by (rule sdiv_nonneg) simp
  have "0 \<le> (?W * 3 * 3 * ?H * ?c) div 8"
    using nn by (simp only: pos_imp_zdiv_nonneg_iff) 
  then have bl: "int (buffer_len b) = (?W * 3 * 3 * ?H * ?c) div 8"
    unfolding buffer_len_def by (rule nat_0_le)
  show ?thesis
    unfolding buffer_size_def by (simp only: c1 c2 c3 c4 bindR_simps sd bl)
qed

lemma decode_well_formed:
  assumes wf: "well_formed_headers bs"
  shows "decode (istream_open bs) Bitmap_init =
           read_pixels ((adjust_headers (parsed_headers bs))
                          \<lparr>data := replicate (buffer_len (parsed_headers bs)) 0\<rparr>)
             \<lparr>content = bs, gpos = unat (offset_data (file_header (parsed_headers bs))),
              failed = False\<rparr>"
proof -
  let ?b = "adjust_headers (parsed_headers bs)"
  have f: "img_width ?b = img_width (parsed_headers bs)"
    "img_height ?b = img_height (parsed_headers bs)"
    "bit_count (bmp_info_header ?b) = bit_count (bmp_info_header (parsed_headers bs))"
    "data ?b = []"
    by (simp_all add: adjust_headers_def Let_def img_width_def img_height_def parsed_headers_def
        Bitmap_init_def)
  have wf': "0 < img_width ?b" "0 < img_height ?b" "0 < uint (bit_count (bmp_info_header ?b))"
    "img_width ?b * 3 * 3 * img_height ?b * uint (bit_count (bmp_info_header ?b)) < 2 ^ 31"
    using wf unfolding f by (auto simp: well_formed_headers_def Let_def)
  have bl: "buffer_len ?b = buffer_len (parsed_headers bs)"
    by (simp add: buffer_len_def f)
  show ?thesis
    using buffer_size_ok[OF wf']
    by (simp add: decode_def istream_open_def[symmetric] read_headers_well_formed[OF wf]
        istream_seekg_def Let_def bl resize_def f)
       (simp add: istream_open_def)
qed

lemma stride_facts:
  assumes w: "0 < img_width b" and h: "0 < img_height b"
    and bits: "0 < uint (bit_count (bmp_info_header b))"
    and lt: "img_width b * 3 * 3 * img_height b * uint (bit_count (bmp_info_header b)) < 2 ^ 31"
  shows "0 \<le> packed_stride b"
    and "packed_stride b * img_height b \<le> int (buffer_len b)"
    and "img_width b * uint (bit_count (bmp_info_header b)) < 2 ^ 31"
    and "int (buffer_len b) < 2 ^ 28"
    and "uint (row_stride (with_stride b)) = packed_stride b"
    and "ck_int (img_width b * uint (bit_count (bmp_info_header b)))
           = Some (Ok (img_width b * uint (bit_count (bmp_info_header b))))"
    and "(img_width b * uint (bit_count (bmp_info_header b))) sdiv 8 = packed_stride b"
proof -
  let ?W = "img_width b" and ?H = "img_height b" and ?c = "uint (bit_count (bmp_info_header b))"
  define P where "P = ?W * ?c"
  define Q where "Q = P * ?H"
  have P0: "0 < P" using w bits by (simp add: P_def)
  have PH: "P \<le> Q" unfolding Q_def using P0 h by (simp add: mult_le_cancel_left1)
  have Q0: "0 < Q" using P0 PH by linarith
  have e: "?W * 3 * 3 * ?H * ?c = 9 * Q" by (simp add: P_def Q_def)
  have lt': "9 * Q < 2147483648" using lt unfolding e by simp
  have bl: "int (buffer_len b) = (9 * Q) div 8"
  proof -
    have "0 \<le> (9 * Q) div 8" using Q0 by linarith
    then show ?thesis unfolding buffer_len_def e by simp
  qed
  show s0: "0 \<le> packed_stride b" using P0 by (simp add: packed_stride_def P_def)
  have "8 * (P div 8 * ?H) \<le> Q"
  proof -
    have "8 * (P div 8) \<le> P" by simp
    then have "8 * (P div 8) * ?H \<le> P * ?H" using h by (intro mult_right_mono) simp_all
    then show ?thesis by (simp add: ac_simps Q_def)
  qed
  then have "8 * (P div 8 * ?H) \<le> 9 * Q" using Q0 by linarith
  then have "P div 8 * ?H \<le> (9 * Q) div 8" by linarith
  then show "packed_stride b * ?H \<le> int (buffer_len b)"
    unfolding bl packed_stride_def P_def .
  have Plt: "P < 2147483648" using PH lt' Q0 by linarith
  then show "?W * ?c < 2 ^ 31" by (simp add: P_def)
  show "int (buffer_len b) < 2 ^ 28" unfolding bl using lt' by simp
  have "packed_stride b < 2 ^ 32" using Plt P0 by (simp add: packed_stride_def P_def)
  with s0 show "uint (row_stride (with_stride b)) = packed_stride b"
    unfolding with_stride_def by (simp add: uint32_small)
  show "ck_int (?W * ?c) = Some (Ok (?W * ?c))"
    using Plt P0 by (simp add: ck_int_def P_def)
  show "(?W * ?c) sdiv 8 = packed_stride b"
    using P0 by (simp add: packed_stride_def sdiv_nonneg P_def)
qed

lemma length_istream_read: "length (fst (istream_read n s)) \<le> n"
  by (simp add: istream_read_def Let_def)

lemma blit_ok:
  assumes "off + length bytes \<le> length d"
  shows "blit d (int off) bytes = Some (Ok (take off d @ bytes @ drop (off + length bytes) d))"
  using assms by (cases "bytes = []") (simp_all add: blit_def)

lemma aligned_stride:
  assumes rs: "uint (row_stride b) = packed_stride b0" and s0: "0 \<le> packed_stride b0"
    and lt: "packed_stride b0 < 2 ^ 31"
  shows "make_stride_aligned b 4 = Some (Ok (stride_loop 4 (row_stride b)))"
    and "unat (stride_loop 4 (row_stride b) - row_stride b) = row_padding b0"
proof -
  show "make_stride_aligned b 4 = Some (Ok (stride_loop 4 (row_stride b)))"
    by (simp add: make_stride_aligned_def)
  define r where "r = uint (row_stride b)"
  define a where "a = uint (stride_loop 4 (row_stride b))"
  have r: "0 \<le> r" "r < 2147483648" using s0 lt rs by (simp_all add: r_def)
  have "(r + 3) div 4 * 4 < 4294967296" using r by linarith
  then have fit: "(uint (row_stride b) + 3) div 4 * 4 < 2 ^ 32" by (simp add: r_def)
  have a: "a = (r + 3) div 4 * 4"
    unfolding a_def r_def by (rule stride_loop_4[OF fit])
  have ge: "r \<le> a" unfolding a by linarith
  have "uint (stride_loop 4 (row_stride b) - row_stride b) = a - r"
    using ge unfolding a_def r_def by (simp only: uint_sub_if' if_True)
  then have "unat (stride_loop 4 (row_stride b) - row_stride b) = nat (a - r)"
    by (simp only: unat_eq_nat_uint)
  also have "\<dots> = row_padding b0"
    unfolding row_padding_def a rs[symmetric] r_def by (rule refl)
  finally show "unat (stride_loop 4 (row_stride b) - row_stride b) = row_padding b0" .
qed

lemma read_row_step:
  fixes rs H y :: int
  assumes rs: "uint (row_stride b) = rs"
    and y: "0 \<le> y" "y < H"
    and bound: "rs * H \<le> int (length d)" "rs * H < 2 ^ 32" "H < 2 ^ 32"
  shows "read_row b pad y (d, s) =
           Some (Ok (take (nat (rs * y)) d @ fst (istream_read (nat rs) s)
                       @ drop (nat (rs * y) + length (fst (istream_read (nat rs) s))) d,
                     snd (istream_read pad (snd (istream_read (nat rs) s)))))"
proof -
  have rs0: "0 \<le> rs" using rs uint_nonnegative[of "row_stride b"] by simp
  have "rs * (y + 1) \<le> rs * H" using y rs0 by (intro mult_left_mono) simp_all
  then have up: "rs * y + rs \<le> rs * H" by (simp add: algebra_simps)
  have lt: "uint (row_stride b) * y < 2 ^ 32" using up bound(2) rs rs0 by simp
  have ro: "row_offset (row_stride b) y = rs * y"
    using row_offset_small[OF y(1) _ lt] y bound(3) rs by simp
  have ry0: "0 \<le> rs * y" using rs0 y by simp
  have "int (length (fst (istream_read (nat rs) s))) \<le> rs"
    using length_istream_read[of "nat rs" s] rs0 by linarith
  then have "int (nat (rs * y) + length (fst (istream_read (nat rs) s))) \<le> int (length d)"
    using up bound(1) ry0 by simp
  then have fit: "nat (rs * y) + length (fst (istream_read (nat rs) s)) \<le> length d" by linarith
  have u: "unat (row_stride b) = nat rs" using rs by (simp add: unat_eq_nat_uint)
  show ?thesis
    using blit_ok[OF fit] ry0
    by (simp add: read_row_def ro u split_beta Let_def)
qed

lemma read_pixels_aligned:
  assumes "0 < img_width b" "img_width b mod 4 = 0"
  shows "read_pixels b s =
     Some (Ok (Returned
       (b\<lparr>data := overlay (fst (istream_read (length (data b)) s)) (data b),
          file_header := (file_header b)\<lparr>file_size := file_size (file_header b)
             + word_of_nat (length (data b))\<rparr>\<rparr>)
       (snd (istream_read (length (data b)) s))))"
  using assms by (simp add: read_pixels_def smod_nonneg split_beta Let_def)

lemma drop_blit:
  assumes "a + length row \<le> K" "K \<le> length d"
  shows "drop K (take a d @ row @ drop (a + length row) d) = drop K d"
proof -
  have l: "length (take a d @ row) = a + length row" using assms by simp
  have "drop K ((take a d @ row) @ drop (a + length row) d)
      = drop (K - (a + length row)) (drop (a + length row) d)"
    using assms l by (simp only: drop_append) simp
  also have "\<dots> = drop K d" using assms by simp
  finally show ?thesis by simp
qed

lemma length_blit:
  assumes "a + length row \<le> length d"
  shows "length (take a d @ row @ drop (a + length row) d) = length d"
  using assms by simp

lemma read_pixels_rows:
  assumes w: "0 < img_width b" "img_width b mod 4 \<noteq> 0" and h: "0 < img_height b"
    and bits: "0 < uint (bit_count (bmp_info_header b))"
    and lt: "img_width b * 3 * 3 * img_height b * uint (bit_count (bmp_info_header b)) < 2 ^ 31"
    and loop: "while_loop (\<lambda>y. y < img_height b) (\<lambda>y. y + 1)
                 (read_row (with_stride b) (row_padding b)) 0 (data b, s) = Some (Ok (d, s'))"
  shows "read_pixels b s = Some (Ok (Returned (finish_rows b d) s'))"
proof -
  note sf = stride_facts[OF w(1) h bits lt]
  have plt: "packed_stride b < 2 ^ 31"
    using sf(3) w(1) bits unfolding packed_stride_def by simp
  note al = aligned_stride[OF sf(5) sf(1) plt]
  have ws: "b\<lparr>row_stride := word_of_int (packed_stride b)\<rparr> = with_stride b"
    by (simp add: with_stride_def)
  have f: "img_height (with_stride b) = img_height b" "data (with_stride b) = data b"
    "file_header (with_stride b) = file_header b"
    "bmp_info_header (with_stride b) = bmp_info_header b"
    by (simp_all add: with_stride_def img_height_def)
  have sm: "img_width b smod 4 \<noteq> 0" using w by (simp add: smod_nonneg)
  have "read_pixels b s = Some (Ok (Returned
          ((with_stride b)\<lparr>data := d,
              file_header := (file_header b)\<lparr>file_size := file_size (file_header b)
                + (word_of_nat (length d)
                   + height (bmp_info_header b) * word_of_nat (row_padding b))\<rparr>\<rparr>) s'))"
    unfolding read_pixels_def
    by (simp only: sm if_False sf(6) sf(7) bindR_simps Let_def ws al f loop prod.case)
  then show ?thesis by (simp only: finish_rows_def)
qed

lemma rows_first:
  fixes rs H :: int
  assumes rs: "uint (row_stride b) = rs"
    and H: "0 \<le> H" "H < 2 ^ 32"
    and bound: "rs * H \<le> int N" "rs * H < 2 ^ 32"
  shows "\<exists>d s'. while_loop (\<lambda>y. y < H) (\<lambda>y. y + 1) (read_row b pad) 0 (replicate N 0, s)
             = Some (Ok (d, s')) \<and> length d = N
           \<and> drop (nat (rs * H)) d = replicate (N - nat (rs * H)) 0"
proof -
  let ?I = "\<lambda>(y :: int) (st :: 8 word list \<times> istream). length (fst st) = N
              \<and> drop (nat (rs * H)) (fst st) = replicate (N - nat (rs * H)) 0"
  have rs0: "0 \<le> rs" using rs uint_nonnegative[of "row_stride b"] by simp
  have "\<exists>st'. while_loop (\<lambda>y. y < H) (\<lambda>y. y + 1) (read_row b pad) 0 (replicate N 0, s)
             = Some (Ok st') \<and> ?I H st'"
  proof (rule for_int_total[where I = ?I, OF H(1)])
    show "?I 0 (replicate N 0, s)" by simp
  next
    fix y :: int and st :: "8 word list \<times> istream"
    assume y: "0 \<le> y" "y < H" and I: "?I y st"
    obtain d t where st: "st = (d, t)" by (cases st)
    have len: "length d = N" and z: "drop (nat (rs * H)) d = replicate (N - nat (rs * H)) 0"
      using I st by simp_all
    let ?row = "fst (istream_read (nat rs) t)"
    let ?d' = "take (nat (rs * y)) d @ ?row @ drop (nat (rs * y) + length ?row) d"
    have step: "read_row b pad y (d, t)
        = Some (Ok (?d', snd (istream_read pad (snd (istream_read (nat rs) t)))))"
      using read_row_step[OF rs y _ bound(2) H(2), of d pad t] bound(1) len by simp
    have "rs * (y + 1) \<le> rs * H" using y rs0 by (intro mult_left_mono) simp_all
    then have up: "rs * y + rs \<le> rs * H" by (simp add: algebra_simps)
    have ry0: "0 \<le> rs * y" using rs0 y by simp
    have rl: "int (length ?row) \<le> rs" using length_istream_read[of "nat rs" t] rs0 by linarith
    have k: "nat (rs * y) + length ?row \<le> nat (rs * H)" using up ry0 rl by linarith
    have kn: "nat (rs * H) \<le> N" using bound(1) by linarith
    have l': "length ?d' = N" using k kn len by (simp only: length_blit)
    have "drop (nat (rs * H)) ?d' = drop (nat (rs * H)) d"
      using k kn len by (intro drop_blit) simp_all
    then have "?I (y + 1) (?d', snd (istream_read pad (snd (istream_read (nat rs) t))))"
      using l' z by simp
    with step st show "\<exists>s'. read_row b pad y st = Some (Ok s') \<and> ?I (y + 1) s'" by blast
  qed
  then show ?thesis by auto
qed

lemma blit_row_take:
  assumes t: "take a d = take a d1" and len: "length d = length d1" "a + r \<le> length d1"
  shows "take (a + r) (take a d @ take r (drop a d1) @ drop (a + r) d) = take (a + r) d1"
proof -
  have l: "length (take a d @ take r (drop a d1)) = a + r" using len by simp
  have "take (a + r) ((take a d @ take r (drop a d1)) @ drop (a + r) d)
      = take a d @ take r (drop a d1)"
    using l by (simp only: take_append) simp
  also have "\<dots> = take (a + r) d1" by (simp add: t take_add)
  finally show ?thesis by simp
qed

lemma blit_row_drop:
  assumes len: "length d = length d1" "a + r \<le> length d1"
  shows "drop (a + r) (take a d @ take r (drop a d1) @ drop (a + r) d) = drop (a + r) d"
proof -
  have l: "length (take a d @ take r (drop a d1)) = a + r" using len by simp
  have "drop (a + r) ((take a d @ take r (drop a d1)) @ drop (a + r) d) = drop (a + r) d"
    using l by (simp only: drop_append) simp
  then show ?thesis by simp
qed

lemma rows_second:
  fixes rs H :: int
  assumes rs: "uint (row_stride b) = rs"
    and H: "0 \<le> H" "H < 2 ^ 32"
    and bound: "rs * H \<le> int N" "rs * H < 2 ^ 32"
    and d1: "length d1 = N" "drop (nat (rs * H)) d1 = replicate (N - nat (rs * H)) 0"
    and pl: "\<And>y. y < nat H \<Longrightarrow> take (nat rs) (drop (y * (nat rs + pad)) payload)
                = take (nat rs) (drop (nat rs * y) d1)"
    and pll: "nat H * (nat rs + pad) \<le> length payload"
  shows "\<exists>s'. while_loop (\<lambda>y. y < H) (\<lambda>y. y + 1) (read_row b pad) 0
                 (replicate N 0, \<lparr>content = hdr @ payload, gpos = length hdr, failed = False\<rparr>)
             = Some (Ok (d1, s'))"
proof -
  define r where "r = nat rs"
  define m where "m = r + pad"
  let ?I = "\<lambda>(y :: int) (st :: 8 word list \<times> istream).
              snd st = \<lparr>content = hdr @ payload, gpos = length hdr + nat y * m, failed = False\<rparr>
              \<and> length (fst st) = N
              \<and> take (r * nat y) (fst st) = take (r * nat y) d1
              \<and> drop (r * nat y) (fst st) = replicate (N - r * nat y) 0"
  have rs0: "0 \<le> rs" using rs uint_nonnegative[of "row_stride b"] by simp
  have rH: "r * nat H \<le> N"
  proof -
    have "int (r * nat H) = rs * H" using rs0 H by (simp add: r_def)
    then show ?thesis using bound(1) by linarith
  qed
  have "\<exists>st'. while_loop (\<lambda>y. y < H) (\<lambda>y. y + 1) (read_row b pad) 0
                 (replicate N 0, \<lparr>content = hdr @ payload, gpos = length hdr, failed = False\<rparr>)
             = Some (Ok st') \<and> ?I H st'"
  proof (rule for_int_total[where I = ?I, OF H(1)])
    show "?I 0 (replicate N 0, \<lparr>content = hdr @ payload, gpos = length hdr, failed = False\<rparr>)"
      by simp
  next
    fix y :: int and st :: "8 word list \<times> istream"
    assume y: "0 \<le> y" "y < H" and I: "?I y st"
    obtain d t where st: "st = (d, t)" by (cases st)
    define k where "k = nat y"
    have kH: "k < nat H" using y by (simp add: k_def)
    have k1: "nat (y + 1) = k + 1" using y by (simp add: k_def)
    have t: "t = \<lparr>content = hdr @ payload, gpos = length hdr + k * m, failed = False\<rparr>"
      and len: "length d = N" and tk: "take (r * k) d = take (r * k) d1"
      and dr: "drop (r * k) d = replicate (N - r * k) 0"
      using I st by (simp_all add: k_def)
    have "r * (k + 1) \<le> r * nat H" using kH by (intro mult_le_mono) simp_all
    then have fitd: "r * k + r \<le> N" using rH by simp
    have "(k + 1) * m \<le> nat H * m" using kH by (intro mult_le_mono) simp_all
    then have fitp: "k * m + m \<le> length payload" using pll by (simp add: m_def r_def)
    have rd1: "istream_read r t = (take r (drop (r * k) d1),
        \<lparr>content = hdr @ payload, gpos = length hdr + k * m + r, failed = False\<rparr>)"
    proof -
      have "take r (drop (length hdr + k * m) (hdr @ payload)) = take r (drop (k * m) payload)"
        by simp
      also have "\<dots> = take r (drop (r * k) d1)" using pl[OF kH] by (simp add: m_def r_def)
      finally show ?thesis using fitp by (simp add: istream_read_def t Let_def m_def)
    qed
    have rd2: "istream_read pad \<lparr>content = hdr @ payload, gpos = length hdr + k * m + r, failed = False\<rparr>
        = (take pad (drop (k * m + r) payload),
           \<lparr>content = hdr @ payload, gpos = length hdr + (k + 1) * m, failed = False\<rparr>)"
      using fitp by (simp add: istream_read_def Let_def m_def add.assoc)
    have lr: "min (length d1 - r * k) r = r" using fitd d1(1) by simp
    have nk: "nat (rs * y) = r * k" using rs0 y by (simp add: r_def k_def nat_mult_distrib)
    let ?d' = "take (r * k) d @ take r (drop (r * k) d1) @ drop (r * k + r) d"
    have step: "read_row b pad y (d, t) = Some (Ok (?d',
        \<lparr>content = hdr @ payload, gpos = length hdr + (k + 1) * m, failed = False\<rparr>))"
      using read_row_step[OF rs y _ bound(2) H(2), of d pad t] bound(1) len
      by (simp add: nk r_def[symmetric] rd1 rd2 lr)
    have l': "length ?d' = N" using fitd len d1(1) by simp
    have t': "take (r * (k + 1)) ?d' = take (r * (k + 1)) d1"
      using blit_row_take[OF tk, of r] len d1(1) fitd by (simp add: algebra_simps)
    have "drop (r * k + r) ?d' = drop (r * k + r) d"
      using blit_row_drop[of d d1 "r * k" r] len d1(1) fitd by simp
    also have "\<dots> = drop r (drop (r * k) d)" by (simp add: add.commute)
    also have "\<dots> = replicate (N - r * k - r) 0" by (simp add: dr)
    finally have d': "drop (r * (k + 1)) ?d' = replicate (N - r * (k + 1)) 0"
      by (simp add: algebra_simps)
    have "?I (y + 1) (?d', \<lparr>content = hdr @ payload, gpos = length hdr + (k + 1) * m, failed = False\<rparr>)"
      using l' t' d' by (simp add: k1)
    with step st show "\<exists>s'. read_row b pad y st = Some (Ok s') \<and> ?I (y + 1) s'" by blast
  qed
  then obtain d s' where run: "while_loop (\<lambda>y. y < H) (\<lambda>y. y + 1) (read_row b pad) 0
                 (replicate N 0, \<lparr>content = hdr @ payload, gpos = length hdr, failed = False\<rparr>)
             = Some (Ok (d, s'))" and len: "length d = N"
    and tk: "take (r * nat H) d = take (r * nat H) d1"
    and dr: "drop (r * nat H) d = replicate (N - r * nat H) 0"
    by auto
  have e: "nat (rs * H) = r * nat H" using rs0 H by (simp add: r_def nat_mult_distrib)
  have "d = take (r * nat H) d @ drop (r * nat H) d" by simp
  also have "\<dots> = take (r * nat H) d1 @ drop (r * nat H) d1"
    using tk dr d1(2) by (simp only: e)
  also have "\<dots> = d1" by simp
  finally have "d = d1" .
  with run show ?thesis by blast
qed

lemma write_headers_open:
  "write_headers b ostream_open = \<lparr>written = header_bytes b, ofailed = False\<rparr>"
  by (simp add: write_headers_def ostream_open_def ostream_write_def header_bytes_def Let_def)

lemma encode_block:
  assumes "bit_count (bmp_info_header b) = 32 \<or>
           bit_count (bmp_info_header b) = 24 \<and> img_width b smod 4 = 0"
  shows "encode_body ostream_open b
           = Some (Ok (Written \<lparr>written = header_bytes b @ data b, ofailed = False\<rparr>))"
  using assms
  by (auto simp: encode_body_def write_headers_and_data_def write_headers_open ostream_write_def)
     (simp_all add: ostream_open_def)

lemma slice_ok:
  assumes "off + n \<le> length d"
  shows "slice d (int off) n = Some (Ok (take n (drop off d)))"
  using assms by (simp add: slice_def)

lemma rows_written:
  fixes rs H :: int
  assumes rs: "uint (row_stride b) = rs"
    and H: "0 \<le> H" "H < 2 ^ 32"
    and bound: "rs * H \<le> int (length (data b))" "rs * H < 2 ^ 32"
  shows "while_loop (\<lambda>y. y < H) (\<lambda>y. y + 1) (write_row b pad) 0
           \<lparr>written = hdr, ofailed = False\<rparr>
         = Some (Ok \<lparr>written = hdr @ padded_rows b pad (nat H), ofailed = False\<rparr>)"
proof -
  let ?I = "\<lambda>(y :: int) out. out = \<lparr>written = hdr @ padded_rows b pad (nat y), ofailed = False\<rparr>"
  have rs0: "0 \<le> rs" using rs uint_nonnegative[of "row_stride b"] by simp
  have u: "unat (row_stride b) = nat rs" using rs by (simp add: unat_eq_nat_uint)
  have "\<exists>out'. while_loop (\<lambda>y. y < H) (\<lambda>y. y + 1) (write_row b pad) 0
           \<lparr>written = hdr, ofailed = False\<rparr> = Some (Ok out') \<and> ?I H out'"
  proof (rule for_int_total[where I = ?I, OF H(1)])
    show "?I 0 \<lparr>written = hdr, ofailed = False\<rparr>" by (simp add: padded_rows_def)
  next
    fix y :: int and out :: ostream
    assume y: "0 \<le> y" "y < H" and I: "?I y out"
    have "rs * (y + 1) \<le> rs * H" using y rs0 by (intro mult_left_mono) simp_all
    then have up: "rs * y + rs \<le> rs * H" by (simp add: algebra_simps)
    have lt: "uint (row_stride b) * y < 2 ^ 32" using up bound(2) rs rs0 by simp
    have ro: "row_offset (row_stride b) y = int (nat rs * nat y)"
      using row_offset_small[OF y(1) _ lt] y H(2) rs rs0 by (simp add: nat_mult_distrib)
    have "int (nat rs * nat y + nat rs) \<le> int (length (data b))"
      using up bound(1) rs0 y by (simp add: nat_mult_distrib)
    then have fit: "nat rs * nat y + nat rs \<le> length (data b)" by linarith
    have n1: "[0..<nat (y + 1)] = [0..<nat y] @ [nat y]"
      using y by (simp add: nat_add_distrib)
    show "\<exists>s'. write_row b pad y out = Some (Ok s') \<and> ?I (y + 1) s'"
      using I slice_ok[OF fit]
      by (simp add: write_row_def ro u ostream_write_def padded_rows_def n1)
  qed
  then show ?thesis by simp
qed

lemma encode_rows:
  assumes w: "0 < img_width b" "img_width b mod 4 \<noteq> 0" and h: "0 < img_height b"
    and bits: "bit_count (bmp_info_header b) = 24"
    and rs: "uint (row_stride b) = packed_stride b0" "0 \<le> packed_stride b0"
      "packed_stride b0 < 2 ^ 31"
    and bound: "packed_stride b0 * img_height b \<le> int (length (data b))"
      "packed_stride b0 * img_height b < 2 ^ 32"
  shows "encode_body ostream_open b
           = Some (Ok (Written \<lparr>written = header_bytes b
                  @ padded_rows b (row_padding b0) (nat (img_height b)), ofailed = False\<rparr>))"
proof -
  note al = aligned_stride[OF rs]
  have sm: "img_width b smod 4 \<noteq> 0" using w by (simp add: smod_nonneg)
  have hh: "0 \<le> img_height b" "img_height b < 2 ^ 32"
    using h img_height_lt[of b] by simp_all
  note rw = rows_written[OF rs(1) hh bound, of "row_padding b0" "header_bytes b"]
  have n32: "((24 :: 16 word) = 32) = False" by simp
  have nf: "ofailed ostream_open = False" by (simp add: ostream_open_def)
  show ?thesis
    unfolding encode_body_def
    by (simp only: n32 nf bits sm if_False if_True al bindR_simps Let_def write_headers_open rw
        simp_thms)
qed

lemma padded_rows_facts:
  assumes fit: "unat (row_stride b) * n \<le> length (data b)"
  shows "length (padded_rows b pad n) = n * (unat (row_stride b) + pad)"
    and "y < n \<Longrightarrow> take (unat (row_stride b)) (drop (y * (unat (row_stride b) + pad))
               (padded_rows b pad n))
           = take (unat (row_stride b)) (drop (unat (row_stride b) * y) (data b))"
proof -
  define r where "r = unat (row_stride b)"
  let ?f = "\<lambda>y. take r (drop (r * y) (data b)) @ replicate pad 0"
  have blk: "\<forall>y \<in> set [0..<n]. length (?f y) = r + pad"
  proof
    fix y assume "y \<in> set [0..<n]"
    then have "y + 1 \<le> n" by simp
    then have "r * (y + 1) \<le> r * n" by (intro mult_le_mono) simp_all
    then have "r * y + r \<le> length (data b)" using fit by (simp add: r_def)
    then show "length (?f y) = r + pad" by simp
  qed
  have pr: "padded_rows b pad n = concat (map ?f [0..<n])"
    by (simp add: padded_rows_def r_def)
  show "length (padded_rows b pad n) = n * (unat (row_stride b) + pad)"
    unfolding pr using length_concat_blocks[OF blk] by (simp add: r_def)
  assume y: "y < n"
  have "take (r + pad) (drop ((r + pad) * y) (concat (map ?f [0..<n]))) = ?f ([0..<n] ! y)"
    using y by (intro take_drop_concat_blocks[OF blk]) simp
  then have t: "take (r + pad) (drop (y * (r + pad)) (padded_rows b pad n)) = ?f y"
    using y by (simp add: pr mult.commute)
  have lf: "length (take r (drop (r * y) (data b))) = r"
    using blk y by auto
  have "take r (drop (y * (r + pad)) (padded_rows b pad n))
      = take r (take (r + pad) (drop (y * (r + pad)) (padded_rows b pad n)))"
    by (simp add: min_def)
  also have "\<dots> = take r (?f y)" by (simp only: t)
  also have "\<dots> = take r (drop (r * y) (data b))" using lf by simp
  finally show "take (unat (row_stride b)) (drop (y * (unat (row_stride b) + pad))
               (padded_rows b pad n))
           = take (unat (row_stride b)) (drop (unat (row_stride b) * y) (data b))"
    by (simp add: r_def)
qed

lemma length_header_bytes:
  "length (header_bytes b) = (if bit_count (bmp_info_header b) = 32 then 138 else 54)"
  by (simp add: header_bytes_def)

lemma parsed_headers_reencoded:
  assumes u: "length (unused (bmp_color_header b)) = 16"
  shows "parsed_headers (header_bytes b @ payload) =
           Bitmap_init\<lparr>file_header := file_header b, bmp_info_header := bmp_info_header b,
             imageType := bit_count (bmp_info_header b) div 8,
             bmp_color_header := (if bit_count (bmp_info_header b) = 32 then bmp_color_header b
                                  else BMPColorHeader_init)\<rparr>"
proof -
  have 1: "take 14 (header_bytes b @ payload) = BMPFileHeader_bytes (file_header b)"
    by (simp add: header_bytes_def)
  have 2: "take 40 (drop 14 (header_bytes b @ payload)) = BMPInfoHeader_bytes (bmp_info_header b)"
    by (simp add: header_bytes_def)
  have 3: "take 84 (drop 54 (header_bytes b @ payload)) = BMPColorHeader_bytes (bmp_color_header b)"
    if "bit_count (bmp_info_header b) = 32"
    using that by (simp add: header_bytes_def)
  show ?thesis
  proof (cases "bit_count (bmp_info_header b) = 32")
    case True
    show ?thesis
      unfolding parsed_headers_def 1 2 3[OF True]
      by (simp add: Let_def True BMPColorHeader_roundtrip[OF u])
  next
    case False
    show ?thesis
      unfolding parsed_headers_def 1 2 by (simp add: Let_def False)
  qed
qed

lemma start_bitmap_facts:
  assumes wf: "well_formed_headers bs"
  shows "0 < img_width (start_bitmap bs)" "0 < img_height (start_bitmap bs)"
    and "uint (bit_count (bmp_info_header (start_bitmap bs))) = 24
         \<or> uint (bit_count (bmp_info_header (start_bitmap bs))) = 32"
    and "img_width (start_bitmap bs) * 3 * 3 * img_height (start_bitmap bs)
           * uint (bit_count (bmp_info_header (start_bitmap bs))) < 2 ^ 31"
    and "data (start_bitmap bs) = replicate (buffer_len (start_bitmap bs)) 0"
    and "length (unused (bmp_color_header (start_bitmap bs))) = 16"
    and "file_type (file_header (start_bitmap bs)) = 0x4D42"
proof -
  let ?P = "parsed_headers bs"
  have f: "img_width (start_bitmap bs) = img_width ?P"
    "img_height (start_bitmap bs) = img_height ?P"
    "bit_count (bmp_info_header (start_bitmap bs)) = bit_count (bmp_info_header ?P)"
    by (simp_all add: start_bitmap_def adjust_headers_def Let_def img_width_def img_height_def)
  show "0 < img_width (start_bitmap bs)" "0 < img_height (start_bitmap bs)"
    "uint (bit_count (bmp_info_header (start_bitmap bs))) = 24
         \<or> uint (bit_count (bmp_info_header (start_bitmap bs))) = 32"
    "img_width (start_bitmap bs) * 3 * 3 * img_height (start_bitmap bs)
           * uint (bit_count (bmp_info_header (start_bitmap bs))) < 2 ^ 31"
    using wf unfolding f by (auto simp: well_formed_headers_def Let_def)
  have "buffer_len (start_bitmap bs) = buffer_len ?P" by (simp add: buffer_len_def f)
  then show "data (start_bitmap bs) = replicate (buffer_len (start_bitmap bs)) 0"
    by (simp add: start_bitmap_def)
  show "length (unused (bmp_color_header (start_bitmap bs))) = 16"
    by (simp add: start_bitmap_def adjust_headers_def parsed_headers_def Let_def
        BMPColorHeader_init_def)
  show "file_type (file_header (start_bitmap bs)) = 0x4D42"
    using wf by (simp add: start_bitmap_def adjust_headers_def well_formed_headers_def Let_def)
qed

lemma decode_start:
  assumes wf: "well_formed_headers bs"
  shows "decode (istream_open bs) Bitmap_init =
           read_pixels (start_bitmap bs)
             \<lparr>content = bs, gpos = unat (offset_data (file_header (parsed_headers bs))),
              failed = False\<rparr>"
  unfolding start_bitmap_def by (rule decode_well_formed[OF wf])

lemma decode_reencoded:
  assumes wf: "well_formed_headers bs"
    and ih: "bmp_info_header b1 = bmp_info_header (start_bitmap bs)"
    and fh: "file_header b1 = (file_header (start_bitmap bs))\<lparr>file_size := fs\<rparr>"
    and ch: "bmp_color_header b1 = bmp_color_header (start_bitmap bs)"
  shows "decode (istream_open (header_bytes b1 @ payload)) Bitmap_init =
           read_pixels (start_bitmap bs)
             \<lparr>content = header_bytes b1 @ payload, gpos = length (header_bytes b1),
              failed = False\<rparr>"
proof -
  let ?out = "header_bytes b1 @ payload"
  let ?P = "parsed_headers bs"
  note sf = start_bitmap_facts[OF wf]
  have u: "length (unused (bmp_color_header b1)) = 16" using sf(6) ch by simp
  note ph = parsed_headers_reencoded[OF u, of payload]
  have bc: "bit_count (bmp_info_header b1) = bit_count (bmp_info_header ?P)"
    using ih by (simp add: start_bitmap_def adjust_headers_def Let_def)
  have dims: "img_width (parsed_headers ?out) = img_width ?P"
    "img_height (parsed_headers ?out) = img_height ?P"
    "bit_count (bmp_info_header (parsed_headers ?out)) = bit_count (bmp_info_header ?P)"
    unfolding ph using ih
    by (simp_all add: img_width_def img_height_def start_bitmap_def adjust_headers_def Let_def)
  have sz: "size_field (bmp_info_header (parsed_headers ?out))
      = (if bit_count (bmp_info_header ?P) = 32 then 124 else 40)"
    unfolding ph using ih by (simp add: start_bitmap_def adjust_headers_def Let_def)
  have ft: "file_type (file_header (parsed_headers ?out)) = 0x4D42"
    unfolding ph using fh sf(7) by simp
  have len: "length ?out = (if bit_count (bmp_info_header ?P) = 32 then 138 else 54) + length payload"
    by (simp add: length_header_bytes bc)
  have wf': "well_formed_headers ?out"
    using wf unfolding well_formed_headers_def Let_def dims sz ft len
    by (auto simp: bit_count_32)
  have off: "unat (offset_data (file_header (parsed_headers ?out))) = length (header_bytes b1)"
    unfolding ph using fh
    by (simp add: start_bitmap_def adjust_headers_def Let_def length_header_bytes bc)
  have bl: "buffer_len (parsed_headers ?out) = buffer_len ?P"
    by (simp add: buffer_len_def dims)
  have colour: "bmp_color_header b1 = bmp_color_header ?P"
    using ch by (simp add: start_bitmap_def adjust_headers_def Let_def)
  have same: "adjust_headers (parsed_headers ?out) = adjust_headers ?P"
    unfolding ph using ih fh colour bc
    by (simp add: adjust_headers_def Let_def start_bitmap_def parsed_headers_def Bitmap_init_def)
  show ?thesis
    using decode_well_formed[OF wf'] by (simp only: off bl same start_bitmap_def)
qed

lemma bit_count_24: "(bit_count h = 24) = (uint (bit_count h) = 24)"
  by (simp add: word_uint_eq_iff)

lemma round_trip_aligned:
  assumes wf: "well_formed_headers bs" and al: "img_width (start_bitmap bs) mod 4 = 0"
  shows "\<exists>b1 s1 out s2.
           decode (istream_open bs) Bitmap_init = Some (Ok (Returned b1 s1)) \<and>
           encode_body ostream_open b1 = Some (Ok (Written out)) \<and>
           decode (istream_open (written out)) Bitmap_init = Some (Ok (Returned b1 s2))"
proof -
  let ?A = "start_bitmap bs"
  note sf = start_bitmap_facts[OF wf]
  define N where "N = buffer_len ?A"
  define s0 where "s0 = \<lparr>content = bs,
      gpos = unat (offset_data (file_header (parsed_headers bs))), failed = False\<rparr>"
  define d1 where "d1 = overlay (fst (istream_read N s0)) (replicate N 0)"
  define b1 where "b1 = ?A\<lparr>data := d1,
      file_header := (file_header ?A)\<lparr>file_size := file_size (file_header ?A) + word_of_nat N\<rparr>\<rparr>"
  have dA: "data ?A = replicate N 0" "length (data ?A) = N" using sf(5) by (simp_all add: N_def)
  have first: "decode (istream_open bs) Bitmap_init
      = Some (Ok (Returned b1 (snd (istream_read N s0))))"
    unfolding decode_start[OF wf] s0_def[symmetric]
    by (simp add: read_pixels_aligned[OF sf(1) al] dA b1_def d1_def)
  have l1: "length d1 = N"
    using length_istream_read[of N s0] by (simp add: d1_def overlay_def)
  have bits: "bit_count (bmp_info_header b1) = 32 \<or>
      bit_count (bmp_info_header b1) = 24 \<and> img_width b1 smod 4 = 0"
    using sf(3) sf(1) al
    by (auto simp: b1_def bit_count_32 bit_count_24 img_width_def smod_nonneg)
  have enc: "encode_body ostream_open b1
      = Some (Ok (Written \<lparr>written = header_bytes b1 @ d1, ofailed = False\<rparr>))"
    using encode_block[OF bits] by (simp add: b1_def)
  have rd: "istream_read N \<lparr>content = header_bytes b1 @ d1, gpos = length (header_bytes b1),
      failed = False\<rparr> = (d1, \<lparr>content = header_bytes b1 @ d1,
        gpos = length (header_bytes b1) + N, failed = False\<rparr>)"
    using l1 by (simp add: istream_read_def Let_def)
  have ov: "overlay d1 (replicate N 0) = d1" using l1 by (simp add: overlay_full)
  have ih: "bmp_info_header b1 = bmp_info_header ?A" by (simp add: b1_def)
  have fh: "file_header b1 = (file_header ?A)\<lparr>file_size := file_size (file_header ?A) + word_of_nat N\<rparr>"
    by (simp add: b1_def)
  have ch: "bmp_color_header b1 = bmp_color_header ?A" by (simp add: b1_def)
  have b1': "?A\<lparr>data := d1,
      file_header := (file_header ?A)\<lparr>file_size := file_size (file_header ?A) + word_of_nat N\<rparr>\<rparr> = b1"
    by (simp add: b1_def)
  have second: "decode (istream_open (header_bytes b1 @ d1)) Bitmap_init
      = Some (Ok (Returned b1 \<lparr>content = header_bytes b1 @ d1,
        gpos = length (header_bytes b1) + N, failed = False\<rparr>))"
    unfolding decode_reencoded[OF wf ih fh ch, of d1]
    by (simp add: read_pixels_aligned[OF sf(1) al] dA N_def[symmetric] rd ov b1')
  show ?thesis using first enc second by force
qed

lemma round_trip_rows:
  assumes wf: "well_formed_headers bs" and al: "img_width (start_bitmap bs) mod 4 \<noteq> 0"
  shows "\<exists>b1 s1 out s2.
           decode (istream_open bs) Bitmap_init = Some (Ok (Returned b1 s1)) \<and>
           encode_body ostream_open b1 = Some (Ok (Written out)) \<and>
           decode (istream_open (written out)) Bitmap_init = Some (Ok (Returned b1 s2))"
proof -
  let ?A = "start_bitmap bs"
  note sf = start_bitmap_facts[OF wf]
  have bpos: "0 < uint (bit_count (bmp_info_header ?A))" using sf(3) by auto
  note st = stride_facts[OF sf(1) sf(2) bpos sf(4)]
  define N where "N = buffer_len ?A"
  define rs where "rs = packed_stride ?A"
  define H where "H = img_height ?A"
  define pad where "pad = row_padding ?A"
  define s0 where "s0 = \<lparr>content = bs,
      gpos = unat (offset_data (file_header (parsed_headers bs))), failed = False\<rparr>"
  have dA: "data ?A = replicate N 0" using sf(5) by (simp add: N_def)
  have rsA: "uint (row_stride (with_stride ?A)) = rs" using st(5) by (simp add: rs_def)
  have rs0: "0 \<le> rs" using st(1) by (simp add: rs_def)
  have H0: "0 \<le> H" "0 < H" using sf(2) by (simp_all add: H_def)
  have H32: "H < 2 ^ 32" using img_height_lt[of ?A] by (simp add: H_def)
  have b1: "rs * H \<le> int N" using st(2) by (simp add: rs_def H_def N_def)
  have N28: "int N < 2 ^ 28" using st(4) by (simp add: N_def)
  have b2: "rs * H < 2 ^ 32" using b1 N28 by simp
  have rsle: "rs \<le> rs * H" using rs0 H0(2) mult_left_mono[of 1 H rs] by simp
  have rs31: "rs < 2 ^ 31" using rsle b1 N28 by simp
  obtain d1 s1 where
    loop1: "while_loop (\<lambda>y. y < H) (\<lambda>y. y + 1) (read_row (with_stride ?A) pad) 0
              (replicate N 0, s0) = Some (Ok (d1, s1))"
    and l1: "length d1 = N"
    and z1: "drop (nat (rs * H)) d1 = replicate (N - nat (rs * H)) 0"
    using rows_first[OF rsA H0(1) H32 b1 b2, of pad s0] by blast
  define b1 where "b1 = finish_rows ?A d1"
  have first: "decode (istream_open bs) Bitmap_init = Some (Ok (Returned b1 s1))"
    unfolding decode_start[OF wf] s0_def[symmetric] b1_def
    by (rule read_pixels_rows[OF sf(1) al sf(2) bpos sf(4)])
       (simp add: dA loop1[unfolded H_def pad_def])
  have ih: "bmp_info_header b1 = bmp_info_header ?A"
    by (simp add: b1_def finish_rows_def with_stride_def)
  have fh: "file_header b1 = (file_header ?A)\<lparr>file_size := file_size (file_header ?A)
           + (word_of_nat (length d1)
              + height (bmp_info_header ?A) * word_of_nat (row_padding ?A))\<rparr>"
    by (simp add: b1_def finish_rows_def with_stride_def)
  have ch: "bmp_color_header b1 = bmp_color_header ?A"
    by (simp add: b1_def finish_rows_def with_stride_def)
  have db: "data b1 = d1" by (simp add: b1_def finish_rows_def with_stride_def)
  have rb: "uint (row_stride b1) = rs"
    using rsA by (simp add: b1_def finish_rows_def)
  have urb: "unat (row_stride b1) = nat rs" using rb by (simp add: unat_eq_nat_uint)
  have wb: "img_width b1 = img_width ?A" "img_height b1 = H"
    by (simp_all add: img_width_def img_height_def ih H_def)
  have fit: "nat H * nat rs \<le> N"
    using b1 rs0 H0(1) by (metis mult.commute nat_int nat_mono nat_mult_distrib)
  have "\<exists>payload. encode_body ostream_open b1
          = Some (Ok (Written \<lparr>written = header_bytes b1 @ payload, ofailed = False\<rparr>)) \<and>
        (\<forall>y < nat H. take (nat rs) (drop (y * (nat rs + pad)) payload)
                = take (nat rs) (drop (nat rs * y) d1)) \<and>
        nat H * (nat rs + pad) \<le> length payload"
  proof (cases "uint (bit_count (bmp_info_header ?A)) = 32")
    case True
    have ps: "rs = img_width ?A * 4" by (simp add: rs_def packed_stride_def True)
    have p0: "pad = 0" by (simp add: pad_def row_padding_def ps[unfolded rs_def])
    have "bit_count (bmp_info_header b1) = 32" using True by (simp add: ih bit_count_32)
    hence "encode_body ostream_open b1
          = Some (Ok (Written \<lparr>written = header_bytes b1 @ d1, ofailed = False\<rparr>))"
      using encode_block[of b1] by (simp add: db)
    moreover have "nat H * (nat rs + pad) \<le> length d1" using fit by (simp add: p0 l1)
    ultimately show ?thesis by (intro exI[of _ d1]) (simp add: p0 mult.commute)
  next
    case False
    hence "uint (bit_count (bmp_info_header ?A)) = 24" using sf(3) by simp
    hence b24: "bit_count (bmp_info_header b1) = 24" by (simp add: ih bit_count_24)
    have e: "encode_body ostream_open b1
           = Some (Ok (Written \<lparr>written = header_bytes b1
                  @ padded_rows b1 pad (nat H), ofailed = False\<rparr>))"
      using encode_rows[of b1 ?A, OF _ _ _ b24] sf(1) al H0(2) rb rs0 rs31 b1 b2
      by (simp add: wb db l1 rs_def[symmetric] pad_def[symmetric])
    have fit': "unat (row_stride b1) * nat H \<le> length (data b1)"
      using fit by (simp add: urb db l1 mult.commute)
    note pf = padded_rows_facts[OF fit', where pad = pad, unfolded urb db]
    show ?thesis
    proof (intro exI[of _ "padded_rows b1 pad (nat H)"] conjI allI impI)
      show "encode_body ostream_open b1
           = Some (Ok (Written \<lparr>written = header_bytes b1
                  @ padded_rows b1 pad (nat H), ofailed = False\<rparr>))" by (rule e)
    next
      fix y assume "y < nat H"
      thus "take (nat rs) (drop (y * (nat rs + pad)) (padded_rows b1 pad (nat H)))
              = take (nat rs) (drop (nat rs * y) d1)" by (rule pf(2))
    next
      show "nat H * (nat rs + pad) \<le> length (padded_rows b1 pad (nat H))"
        by (simp only: pf(1) order_refl)
    qed
  qed
  then obtain payload where
    enc: "encode_body ostream_open b1
          = Some (Ok (Written \<lparr>written = header_bytes b1 @ payload, ofailed = False\<rparr>))"
    and pl: "\<And>y. y < nat H \<Longrightarrow> take (nat rs) (drop (y * (nat rs + pad)) payload)
                = take (nat rs) (drop (nat rs * y) d1)"
    and pll: "nat H * (nat rs + pad) \<le> length payload"
    by blast
  obtain s2 where
    loop2: "while_loop (\<lambda>y. y < H) (\<lambda>y. y + 1) (read_row (with_stride ?A) pad) 0
               (replicate N 0, \<lparr>content = header_bytes b1 @ payload,
                  gpos = length (header_bytes b1), failed = False\<rparr>) = Some (Ok (d1, s2))"
    using rows_second[OF rsA H0(1) H32 b1 b2 l1 z1 pl pll, of "header_bytes b1"] by blast
  have second: "decode (istream_open (header_bytes b1 @ payload)) Bitmap_init
      = Some (Ok (Returned b1 s2))"
  proof -
    have "read_pixels ?A \<lparr>content = header_bytes b1 @ payload,
            gpos = length (header_bytes b1), failed = False\<rparr>
          = Some (Ok (Returned (finish_rows ?A d1) s2))"
      by (rule read_pixels_rows[OF sf(1) al sf(2) bpos sf(4)])
         (simp add: dA loop2[unfolded H_def pad_def])
    thus ?thesis by (simp only: decode_reencoded[OF wf ih fh ch, of payload] b1_def[symmetric])
  qed
  show ?thesis using first enc second by force
qed

text \<open>
  The bytes that the statements of \<open>operator<<\<close> write decode back to the bitmap they were
  written from, for the streams that \<open>well_formed_headers\<close> accepts: the first decode returns
  a bitmap, the statements write it, and a decode of the bytes written returns a bitmap equal
  to the first in every field.
\<close>

lemma written_bytes_decode_back:
  assumes wf: "well_formed_headers bs"
  shows "\<exists>b1 s1 out b2 s2.
           decode (istream_open bs) Bitmap_init = Some (Ok (Returned b1 s1)) \<and>
           encode_body ostream_open b1 = Some (Ok (Written out)) \<and>
           decode (istream_open (written out)) Bitmap_init = Some (Ok (Returned b2 s2)) \<and>
           round_trip_equal b1 b2 \<and> b2 = b1"
proof -
  have "\<exists>b1 s1 out s2.
           decode (istream_open bs) Bitmap_init = Some (Ok (Returned b1 s1)) \<and>
           encode_body ostream_open b1 = Some (Ok (Written out)) \<and>
           decode (istream_open (written out)) Bitmap_init = Some (Ok (Returned b1 s2))"
    by (cases "img_width (start_bitmap bs) mod 4 = 0")
       (rule round_trip_aligned[OF wf], assumption, rule round_trip_rows[OF wf], assumption)
  then obtain b1 s1 out s2 where
    r: "decode (istream_open bs) Bitmap_init = Some (Ok (Returned b1 s1))"
      "encode_body ostream_open b1 = Some (Ok (Written out))"
      "decode (istream_open (written out)) Bitmap_init = Some (Ok (Returned b1 s2))"
    by blast
  have e: "round_trip_equal b1 b1" by (simp add: round_trip_equal_def)
  show ?thesis
    by (intro exI[of _ b1] exI[of _ s1] exI[of _ out] exI[of _ s2] conjI r e refl)
qed

text \<open>
  Outside \<open>well_formed_headers\<close> the first decode can fail.  For a 4000 by 3000 image of 24
  bits per pixel the size passed to \<open>resize\<close>, \<open>4000 * 3 * 3 * 3000 * 24 / 8\<close>, overflows
  \<open>int\<close>.
\<close>

lemma decode_large_image_overflows:
  "decode (istream_open stream_4000x3000_headers) Bitmap_init = Some (Fault Signed_overflow)"
  by code_simp

text \<open>
  Claim C1.  The claim is that decoding a well-formed stream, encoding the bitmap with
  \<open>operator<<\<close> and decoding the bytes written gives a bitmap with the same buffer and the
  same normalised header fields.  \<open>operator<<\<close> returns \<open>std::ostream &\<close> and has no \<open>return\<close>
  statement, so every call that does not throw runs into undefined behaviour at its closing
  brace.  The stream of the 1 by 1 image decodes to \<open>sample_1x1\<close>; the statements of
  \<open>operator<<\<close> write the headers, the row and one byte of padding, and the call itself has
  no defined result.
\<close>

theorem encode_has_no_return:
  "decode (istream_open stream_1x1) Bitmap_init
     = Some (Ok (Returned sample_1x1 \<lparr>content = stream_1x1, gpos = 58, failed = False\<rparr>)) \<and>
   encode_body ostream_open sample_1x1
     = Some (Ok (Written \<lparr>written = header_bytes sample_1x1 @ [64, 200, 100, 0],
                            ofailed = False\<rparr>)) \<and>
   encode ostream_open sample_1x1 = Some (Fault Missing_return)"
  by code_simp

end
